theory Spec2Isabelle
  imports Complex_Main "HOL-Library.Word" "HOL-Library.AList"
begin

section \<open>Shared data model\<close>

text \<open>
  The three worker threads of the port-scan detector share one Python dictionary,
  \<^verbatim>\<open>first_contacts\<close>, from the flow key \<^verbatim>\<open>(src_ip, dest_ip, dest_port)\<close> to the
  \<^verbatim>\<open>time.time()\<close> reading of the last packet of that flow. A Python dictionary iterates
  in insertion order, assignment to a present key keeps its position and assignment to a new
  key appends, so the dictionary is an association list with distinct keys:
  \<open>map_of\<close> is the lookup, \<open>AList.update\<close> the assignment and \<open>AList.delete\<close> the
  \<^verbatim>\<open>del\<close> statement (which raises \<^verbatim>\<open>KeyError\<close> on an absent key, written out below).
  Clock readings and ages are Python floats, idealised here as reals.
\<close>

datatype error = StructError | IndexError | KeyError

type_synonym byte = "8 word"
type_synonym flow_key = "string \<times> string \<times> nat"
type_synonym table = "(flow_key \<times> real) list"

section \<open>DictCleaner.py\<close>

text \<open>
  One pass of the \<^verbatim>\<open>while self.is_running\<close> loop of \<^verbatim>\<open>DictCleaner.run\<close>:
  \<open>collect_expired\<close> is the loop over \<^verbatim>\<open>self.first_contacts.keys()\<close> that appends to
  \<^verbatim>\<open>keys_to_remove\<close>, \<open>remove_keys\<close> the loop of \<^verbatim>\<open>del\<close> statements.
\<close>

definition default_max_age_seconds :: real where
  "default_max_age_seconds = 300"

fun collect_expired :: "real \<Rightarrow> real \<Rightarrow> table \<Rightarrow> flow_key list \<Rightarrow> flow_key list \<Rightarrow> error + flow_key list" where
  "collect_expired current_time max_age_seconds first_contacts [] keys_to_remove = Inr keys_to_remove"
| "collect_expired current_time max_age_seconds first_contacts (key # keys) keys_to_remove =
     (case map_of first_contacts key of
        None \<Rightarrow> Inl KeyError
      | Some ts \<Rightarrow>
          if current_time - ts > max_age_seconds
          then collect_expired current_time max_age_seconds first_contacts keys (keys_to_remove @ [key])
          else collect_expired current_time max_age_seconds first_contacts keys keys_to_remove)"

fun remove_keys :: "table \<Rightarrow> flow_key list \<Rightarrow> error + table" where
  "remove_keys first_contacts [] = Inr first_contacts"
| "remove_keys first_contacts (key # keys) =
     (case map_of first_contacts key of
        None \<Rightarrow> Inl KeyError
      | Some ts \<Rightarrow> remove_keys (AList.delete key first_contacts) keys)"

definition cleaner_cycle :: "real \<Rightarrow> real \<Rightarrow> table \<Rightarrow> error + table" where
  "cleaner_cycle current_time max_age_seconds first_contacts =
     (case collect_expired current_time max_age_seconds first_contacts (map fst first_contacts) [] of
        Inl e \<Rightarrow> Inl e
      | Inr keys_to_remove \<Rightarrow> remove_keys first_contacts keys_to_remove)"

section \<open>Sniffer.py\<close>

subsection \<open>Library calls\<close>

text \<open>
  \<^verbatim>\<open>struct.unpack\<close> raises \<^verbatim>\<open>struct.error\<close> unless the buffer has exactly the size of
  the format; \<^verbatim>\<open>H\<close> under \<^verbatim>\<open>!\<close> is an unsigned 16-bit integer, most significant byte
  first, \<^verbatim>\<open>B\<close> one byte, \<^verbatim>\<open>x\<close> a pad byte that is skipped, \<^verbatim>\<open>6s\<close> six raw bytes.
  \<^verbatim>\<open>socket.htons\<close> exchanges the two bytes of a 16-bit value on a little-endian host, the
  host that the test \<^verbatim>\<open>protocol == 8\<close> of \<^verbatim>\<open>Sniffer.run\<close> is written for.
\<close>

definition be16 :: "byte \<Rightarrow> byte \<Rightarrow> nat" where
  "be16 hi lo = 256 * unat hi + unat lo"

definition unpack_6s6sH :: "byte list \<Rightarrow> error + (byte list \<times> byte list \<times> nat)" where
  "unpack_6s6sH buffer =
     (if length buffer = 14
      then Inr (take 6 buffer, take 6 (drop 6 buffer), be16 (buffer ! 12) (buffer ! 13))
      else Inl StructError)"

definition unpack_9xB2x4s4s :: "byte list \<Rightarrow> error + (nat \<times> byte list \<times> byte list)" where
  "unpack_9xB2x4s4s buffer =
     (if length buffer = 20
      then Inr (unat (buffer ! 9), take 4 (drop 12 buffer), take 4 (drop 16 buffer))
      else Inl StructError)"

definition unpack_HH :: "byte list \<Rightarrow> error + (nat \<times> nat)" where
  "unpack_HH buffer =
     (if length buffer = 4
      then Inr (be16 (buffer ! 0) (buffer ! 1), be16 (buffer ! 2) (buffer ! 3))
      else Inl StructError)"

definition unpack_BB :: "byte list \<Rightarrow> error + (nat \<times> nat)" where
  "unpack_BB buffer =
     (if length buffer = 2
      then Inr (unat (buffer ! 0), unat (buffer ! 1))
      else Inl StructError)"

definition htons :: "nat \<Rightarrow> nat" where
  "htons x = 256 * (x mod 256) + (x div 256) mod 256"

text \<open>
  \<^verbatim>\<open>'{:02x}'.format\<close> on a byte gives its two lowercase hexadecimal digits,
  \<^verbatim>\<open>str.upper\<close> maps the letters a to z to A to Z, \<^verbatim>\<open>str\<close> on a non-negative integer
  gives its decimal digits, \<^verbatim>\<open>sep.join\<close> puts the separator between the parts.
\<close>

definition format_02x :: "byte \<Rightarrow> string" where
  "format_02x b = [''0123456789abcdef'' ! (unat b div 16), ''0123456789abcdef'' ! (unat b mod 16)]"

definition upper_char :: "char \<Rightarrow> char" where
  "upper_char c =
     (case map_of (zip ''abcdefghijklmnopqrstuvwxyz'' ''ABCDEFGHIJKLMNOPQRSTUVWXYZ'') c of
        None \<Rightarrow> c
      | Some u \<Rightarrow> u)"

definition upper :: "string \<Rightarrow> string" where
  "upper s = map upper_char s"

fun str :: "nat \<Rightarrow> string" where
  "str n = (if n < 10 then [''0123456789'' ! n] else str (n div 10) @ [''0123456789'' ! (n mod 10)])"

declare str.simps [simp del]

fun join :: "string \<Rightarrow> string list \<Rightarrow> string" where
  "join sep [] = []"
| "join sep [x] = x"
| "join sep (x # y # ys) = x @ sep @ join sep (y # ys)"

subsection \<open>Dissection helpers\<close>

definition mac_format :: "byte list \<Rightarrow> string" where
  "mac_format mac = upper (concat (map format_02x mac))"

definition ipv4_format :: "byte list \<Rightarrow> string" where
  "ipv4_format address = join ''.'' (map (\<lambda>b. str (unat b)) address)"

definition ethernet_dissect :: "byte list \<Rightarrow> error + (string \<times> string \<times> nat \<times> byte list)" where
  "ethernet_dissect ethernet_data =
     (case unpack_6s6sH (take 14 ethernet_data) of
        Inl e \<Rightarrow> Inl e
      | Inr (dest_mac, src_mac, protocol) \<Rightarrow>
          Inr (mac_format dest_mac, mac_format src_mac, htons protocol, drop 14 ethernet_data))"

definition ipv4_dissect :: "byte list \<Rightarrow> error + (nat \<times> string \<times> string \<times> byte list)" where
  "ipv4_dissect ip_data =
     (case unpack_9xB2x4s4s (take 20 ip_data) of
        Inl e \<Rightarrow> Inl e
      | Inr (ip_protocol, source_ip, target_ip) \<Rightarrow>
          Inr (ip_protocol, ipv4_format source_ip, ipv4_format target_ip, drop 20 ip_data))"

definition tcp_dissect :: "byte list \<Rightarrow> error + (nat \<times> nat)" where
  "tcp_dissect transport_data = unpack_HH (take 4 transport_data)"

definition udp_dissect :: "byte list \<Rightarrow> error + (nat \<times> nat)" where
  "udp_dissect transport_data = unpack_HH (take 4 transport_data)"

definition icmp_dissect :: "byte list \<Rightarrow> error + (nat \<times> nat)" where
  "icmp_dissect transport_data = unpack_BB (take 2 transport_data)"

subsection \<open>The capture loop\<close>

text \<open>
  \<open>process_frame\<close> is the body of the loop of \<^verbatim>\<open>Sniffer.run\<close> after a frame has been
  received; \<open>now\<close> is what \<^verbatim>\<open>time.time()\<close> returns at the assignment. Every raise happens
  before the assignment, so \<open>Inl\<close> leaves the dictionary as it was. No \<^verbatim>\<open>except\<close> clause
  other than the one for \<^verbatim>\<open>socket.timeout\<close> around \<^verbatim>\<open>recvfrom\<close> exists, so an exception
  of the body ends \<^verbatim>\<open>run\<close>. \<open>sniffer_run\<close> is the loop over what \<^verbatim>\<open>recvfrom\<close> delivers
  while \<^verbatim>\<open>is_running\<close> holds; it returns the dictionary it leaves behind and the exception
  that ended it, if any.
\<close>

definition process_frame :: "table \<Rightarrow> byte list \<Rightarrow> real \<Rightarrow> error + table" where
  "process_frame first_contacts ethernet_data now =
     (case ethernet_dissect ethernet_data of
        Inl e \<Rightarrow> Inl e
      | Inr (dest_mac, src_mac, protocol, ip_data) \<Rightarrow>
          if protocol = 8 then
            (case ipv4_dissect ip_data of
               Inl e \<Rightarrow> Inl e
             | Inr (ip_protocol, src_ip, dest_ip, transport_data) \<Rightarrow>
                 if ip_protocol = 6 then
                   (case tcp_dissect transport_data of
                      Inl e \<Rightarrow> Inl e
                    | Inr (src_port, dest_port) \<Rightarrow>
                        Inr (AList.update (src_ip, dest_ip, dest_port) now first_contacts))
                 else if ip_protocol = 17 then
                   (case udp_dissect transport_data of
                      Inl e \<Rightarrow> Inl e
                    | Inr (src_port, dest_port) \<Rightarrow>
                        Inr (AList.update (src_ip, dest_ip, dest_port) now first_contacts))
                 else Inr first_contacts)
          else Inr first_contacts)"

datatype received = Timeout | Frame "byte list" real

fun sniffer_run :: "table \<Rightarrow> received list \<Rightarrow> table \<times> error option" where
  "sniffer_run first_contacts [] = (first_contacts, None)"
| "sniffer_run first_contacts (Timeout # rest) = sniffer_run first_contacts rest"
| "sniffer_run first_contacts (Frame ethernet_data now # rest) =
     (case process_frame first_contacts ethernet_data now of
        Inl e \<Rightarrow> (first_contacts, Some e)
      | Inr first_contacts' \<Rightarrow> sniffer_run first_contacts' rest)"

section \<open>FanOutRateCalculator.py\<close>

text \<open>
  \<open>source_connections\<close> and \<open>blacklist\<close> are dictionaries keyed by the source address;
  \<open>get_default\<close> is \<^verbatim>\<open>dict.get(key, default)\<close>. An index read or write outside a list raises
  \<^verbatim>\<open>IndexError\<close>.
\<close>

type_synonym snapshot = "(string \<times> nat list) list"
type_synonym blacklist = "(string \<times> nat list) list"

definition ages :: "nat list" where
  "ages = [1, 60, 300]"

definition max_connections :: "nat list" where
  "max_connections = [5, 100, 300]"

definition get_default :: "('k \<times> 'v) list \<Rightarrow> 'k \<Rightarrow> 'v \<Rightarrow> 'v" where
  "get_default d k v = (case map_of d k of None \<Rightarrow> v | Some x \<Rightarrow> x)"

text \<open>The three statements under the age test: fetch the vector, increment slot \<open>i\<close>, store.\<close>

definition count_flow :: "snapshot \<Rightarrow> string \<Rightarrow> nat \<Rightarrow> error + snapshot" where
  "count_flow source_connections source i =
     (let fan_out_rates = get_default source_connections source [0, 0, 0]
      in if i < length fan_out_rates
         then Inr (AList.update source (fan_out_rates[i := fan_out_rates ! i + 1]) source_connections)
         else Inl IndexError)"

text \<open>The loop \<^verbatim>\<open>for i in range(len(ages))\<close> for one key.\<close>

fun scan_ages :: "real \<Rightarrow> real \<Rightarrow> string \<Rightarrow> nat list \<Rightarrow> snapshot \<Rightarrow> error + snapshot" where
  "scan_ages current_time ts source [] source_connections = Inr source_connections"
| "scan_ages current_time ts source (i # rest) source_connections =
     (if current_time - ts < real (ages ! i)
      then (case count_flow source_connections source i of
              Inl e \<Rightarrow> Inl e
            | Inr sc \<Rightarrow> scan_ages current_time ts source rest sc)
      else scan_ages current_time ts source rest source_connections)"

text \<open>The loop over \<^verbatim>\<open>self.first_contacts.keys()\<close>, run while the lock is held.\<close>

fun scan_keys :: "real \<Rightarrow> table \<Rightarrow> flow_key list \<Rightarrow> snapshot \<Rightarrow> error + snapshot" where
  "scan_keys current_time first_contacts [] source_connections = Inr source_connections"
| "scan_keys current_time first_contacts (key # keys) source_connections =
     (case map_of first_contacts key of
        None \<Rightarrow> Inl KeyError
      | Some ts \<Rightarrow>
          (case scan_ages current_time ts (fst key) [0..<length ages] source_connections of
             Inl e \<Rightarrow> Inl e
           | Inr sc \<Rightarrow> scan_keys current_time first_contacts keys sc))"

definition take_snapshot :: "real \<Rightarrow> table \<Rightarrow> error + snapshot" where
  "take_snapshot current_time first_contacts =
     scan_keys current_time first_contacts (map fst first_contacts) []"

text \<open>
  The loop \<^verbatim>\<open>for i in range(len(max_connections))\<close> for one source: \<open>Some i\<close> is the
  \<^verbatim>\<open>break\<close> with \<^verbatim>\<open>detected = True\<close> at index \<open>i\<close>, \<open>None\<close> the end of the range with
  \<^verbatim>\<open>detected\<close> still false; \<open>listed\<close> is \<^verbatim>\<open>blacklist.get(key, list())\<close>.
\<close>

fun check_thresholds :: "nat list \<Rightarrow> nat list \<Rightarrow> nat list \<Rightarrow> error + nat option" where
  "check_thresholds rates listed [] = Inr None"
| "check_thresholds rates listed (i # rest) =
     (if i < length rates
      then (if rates ! i > max_connections ! i
            then (if i \<in> set listed
                  then check_thresholds rates listed rest
                  else Inr (Some i))
            else check_thresholds rates listed rest)
      else Inl IndexError)"

text \<open>
  What is printed for a detected source: the address, the three rates and the reason
  (the age, the count and the threshold of the index that was detected). The index itself
  is kept in \<open>alert_tier\<close>.
\<close>

record alert =
  alert_ip :: string
  alert_tier :: nat
  reason_age :: nat
  reason_count :: nat
  reason_max :: nat
  fanout_per_1s :: real
  fanout_per_1m :: real
  fanout_per_5m :: nat

definition alert_of :: "string \<Rightarrow> nat list \<Rightarrow> nat \<Rightarrow> alert" where
  "alert_of key rates i =
     \<lparr> alert_ip = key, alert_tier = i,
       reason_age = ages ! i, reason_count = rates ! i, reason_max = max_connections ! i,
       fanout_per_1s = real (rates ! 2) / 300,
       fanout_per_1m = real (rates ! 1) / 5,
       fanout_per_5m = rates ! 0 \<rparr>"

definition report :: "string \<Rightarrow> nat list \<Rightarrow> nat \<Rightarrow> error + alert" where
  "report key rates i =
     (if 2 < length rates \<and> i < length rates
      then Inr (alert_of key rates i)
      else Inl IndexError)"

text \<open>The loop over \<^verbatim>\<open>source_connections.keys()\<close>, run after the lock is released.\<close>

fun analyze :: "snapshot \<Rightarrow> string list \<Rightarrow> blacklist \<Rightarrow> error + (alert list \<times> blacklist)" where
  "analyze source_connections [] blacklist = Inr ([], blacklist)"
| "analyze source_connections (key # keys) blacklist =
     (case map_of source_connections key of
        None \<Rightarrow> Inl KeyError
      | Some rates \<Rightarrow>
          (case check_thresholds rates (get_default blacklist key []) [0..<length max_connections] of
             Inl e \<Rightarrow> Inl e
           | Inr None \<Rightarrow> analyze source_connections keys blacklist
           | Inr (Some i) \<Rightarrow>
               (case report key rates i of
                  Inl e \<Rightarrow> Inl e
                | Inr a \<Rightarrow>
                    (case analyze source_connections keys
                            (AList.update key (get_default blacklist key [] @ [i]) blacklist) of
                       Inl e \<Rightarrow> Inl e
                     | Inr (alerts, blacklist') \<Rightarrow> Inr (a # alerts, blacklist')))))"

text \<open>
  One pass of the \<^verbatim>\<open>while self.is_running\<close> loop, on the clock reading and the dictionary
  it finds under the lock, and the loop over the passes, which starts with an empty
  \<open>blacklist\<close>.
\<close>

definition analyzer_cycle :: "real \<Rightarrow> table \<Rightarrow> blacklist \<Rightarrow> error + (alert list \<times> blacklist)" where
  "analyzer_cycle current_time first_contacts blacklist =
     (case take_snapshot current_time first_contacts of
        Inl e \<Rightarrow> Inl e
      | Inr source_connections \<Rightarrow> analyze source_connections (map fst source_connections) blacklist)"

fun analyzer_loop :: "blacklist \<Rightarrow> (real \<times> table) list \<Rightarrow> error + (alert list list \<times> blacklist)" where
  "analyzer_loop blacklist [] = Inr ([], blacklist)"
| "analyzer_loop blacklist ((current_time, first_contacts) # rest) =
     (case analyzer_cycle current_time first_contacts blacklist of
        Inl e \<Rightarrow> Inl e
      | Inr (alerts, blacklist') \<Rightarrow>
          (case analyzer_loop blacklist' rest of
             Inl e \<Rightarrow> Inl e
           | Inr (later, blacklist'') \<Rightarrow> Inr (alerts # later, blacklist'')))"

definition analyzer_run :: "(real \<times> table) list \<Rightarrow> error + (alert list list \<times> blacklist)" where
  "analyzer_run observations = analyzer_loop [] observations"

section \<open>Vocabulary of the specification\<close>

text \<open>
  The specification speaks of the count of flows from a source whose age at the snapshot
  time is below a window threshold. \<open>flows_younger\<close> is that count, read off the
  dictionary directly; it is what the vectors built by \<open>take_snapshot\<close> are compared with.
\<close>

definition flows_younger :: "real \<Rightarrow> table \<Rightarrow> string \<Rightarrow> nat \<Rightarrow> nat" where
  "flows_younger current_time first_contacts source seconds =
     length (filter (\<lambda>(key, ts). fst key = source \<and> current_time - ts < real seconds)
               first_contacts)"

text \<open>
  The specification names the window that may be reported for a source in a cycle: the
  first exceeded window, lowest index first, that is not yet in the source's blacklist.
  \<open>first_new_tier\<close> is that index, if there is one; it is what the loop
  \<open>check_thresholds\<close> is compared with.
\<close>

definition first_new_tier :: "nat list \<Rightarrow> nat list \<Rightarrow> nat option" where
  "first_new_tier rates listed =
     List.find (\<lambda>i. rates ! i > max_connections ! i \<and> i \<notin> set listed) [0, 1, 2]"

section \<open>Properties of the expiry worker\<close>

lemma collect_expired_filter:
  "set keys \<subseteq> fst ` set tbl \<Longrightarrow>
   collect_expired T m tbl keys acc =
     Inr (acc @ filter (\<lambda>k. T - the (map_of tbl k) > m) keys)"
proof (induction keys arbitrary: acc)
  case Nil
  then show ?case by simp
next
  case (Cons k keys)
  from Cons.prems have "k \<in> fst ` set tbl" by simp
  then obtain ts where ts: "map_of tbl k = Some ts"
    by (metis domD dom_map_of_conv_image_fst)
  from Cons.prems have sub: "set keys \<subseteq> fst ` set tbl" by simp
  show ?case
    using ts Cons.IH [OF sub] by simp
qed

lemma remove_keys_filter:
  "distinct ks \<Longrightarrow> set ks \<subseteq> fst ` set tbl \<Longrightarrow>
   remove_keys tbl ks = Inr (filter (\<lambda>p. fst p \<notin> set ks) tbl)"
proof (induction ks arbitrary: tbl)
  case Nil
  then show ?case by simp
next
  case (Cons k ks)
  from Cons.prems have "k \<in> fst ` set tbl" by simp
  then obtain ts where ts: "map_of tbl k = Some ts"
    by (metis domD dom_map_of_conv_image_fst)
  have d: "distinct ks" and nk: "k \<notin> set ks" using Cons.prems by simp_all
  have sub: "set ks \<subseteq> fst ` set (AList.delete k tbl)"
  proof
    fix x assume x: "x \<in> set ks"
    then have "x \<noteq> k" using nk by auto
    moreover from x Cons.prems have "x \<in> fst ` set tbl" by auto
    ultimately show "x \<in> fst ` set (AList.delete k tbl)"
      by (force simp: AList.delete_eq)
  qed
  have "remove_keys tbl (k # ks) = remove_keys (AList.delete k tbl) ks"
    using ts by simp
  also have "\<dots> = Inr (filter (\<lambda>p. fst p \<notin> set ks) (AList.delete k tbl))"
    by (rule Cons.IH [OF d sub])
  also have "filter (\<lambda>p. fst p \<notin> set ks) (AList.delete k tbl)
             = filter (\<lambda>p. fst p \<notin> set (k # ks)) tbl"
    by (auto simp: AList.delete_eq intro!: filter_cong)
  finally show ?case .
qed

lemma cleaner_cycle_filter:
  assumes "distinct (map fst tbl)"
  shows "cleaner_cycle T m tbl = Inr (filter (\<lambda>(k, ts). \<not> T - ts > m) tbl)"
proof -
  let ?ks = "filter (\<lambda>k. T - the (map_of tbl k) > m) (map fst tbl)"
  have c: "collect_expired T m tbl (map fst tbl) [] = Inr ?ks"
    using collect_expired_filter [of "map fst tbl" tbl T m "[]"] by simp
  have "distinct ?ks" using assms by simp
  moreover have "set ?ks \<subseteq> fst ` set tbl" by auto
  ultimately have r: "remove_keys tbl ?ks = Inr (filter (\<lambda>p. fst p \<notin> set ?ks) tbl)"
    by (rule remove_keys_filter)
  have "filter (\<lambda>p. fst p \<notin> set ?ks) tbl = filter (\<lambda>(k, ts). \<not> T - ts > m) tbl"
  proof (rule filter_cong [OF refl])
    fix p assume p: "p \<in> set tbl"
    obtain k ts where kt: "p = (k, ts)" by (cases p)
    with p assms have "map_of tbl k = Some ts" by simp
    with p kt show "(fst p \<notin> set ?ks) = (case p of (k, ts) \<Rightarrow> \<not> T - ts > m)"
      by force
  qed
  with c r show ?thesis by (simp add: cleaner_cycle_def)
qed

lemma map_of_filter_snd:
  "distinct (map fst tbl) \<Longrightarrow>
   map_of (filter (\<lambda>(k, ts). P ts) tbl) key =
     (case map_of tbl key of None \<Rightarrow> None | Some ts \<Rightarrow> if P ts then Some ts else None)"
proof (induction tbl)
  case Nil
  then show ?case by simp
next
  case (Cons p tbl)
  obtain k ts where p: "p = (k, ts)" by (cases p)
  from Cons.prems p have notin: "k \<notin> fst ` set tbl" and d: "distinct (map fst tbl)"
    by simp_all
  have none: "map_of (filter (\<lambda>(k, ts). P ts) tbl) k = None"
    using notin by (force simp: map_of_eq_None_iff)
  show ?case
    using Cons.IH [OF d] p none by (simp split: option.splits)
qed

text \<open>
  C5. One pass of the expiry worker reads the clock once (\<open>T\<close>). On a dictionary (distinct
  keys) the first loop never raises and collects exactly the keys whose age \<open>T - ts\<close> is
  strictly greater than \<open>max_age\<close>, computed on the dictionary as it was found; the pass
  then leaves exactly the other entries, in their order and with their timestamps, so a key
  is gone iff it was expired and every other key keeps its timestamp.
\<close>

theorem expiry_cycle_deletes_exactly_expired:
  assumes "distinct (map fst first_contacts)"
  shows "collect_expired T max_age first_contacts (map fst first_contacts) [] =
           Inr (filter (\<lambda>key. T - the (map_of first_contacts key) > max_age) (map fst first_contacts))
       \<and> cleaner_cycle T max_age first_contacts =
           Inr (filter (\<lambda>(key, ts). \<not> T - ts > max_age) first_contacts)
       \<and> (\<forall>key. map_of (filter (\<lambda>(key, ts). \<not> T - ts > max_age) first_contacts) key =
             (case map_of first_contacts key of
                None \<Rightarrow> None
              | Some ts \<Rightarrow> if T - ts > max_age then None else Some ts))"
proof (intro conjI allI)
  show "collect_expired T max_age first_contacts (map fst first_contacts) [] =
          Inr (filter (\<lambda>key. T - the (map_of first_contacts key) > max_age) (map fst first_contacts))"
    using collect_expired_filter [of "map fst first_contacts" first_contacts T max_age "[]"]
    by simp
  show "cleaner_cycle T max_age first_contacts =
          Inr (filter (\<lambda>(key, ts). \<not> T - ts > max_age) first_contacts)"
    by (rule cleaner_cycle_filter [OF assms])
  fix key
  show "map_of (filter (\<lambda>(key, ts). \<not> T - ts > max_age) first_contacts) key =
          (case map_of first_contacts key of
             None \<Rightarrow> None
           | Some ts \<Rightarrow> if T - ts > max_age then None else Some ts)"
    using map_of_filter_snd [OF assms, of "\<lambda>ts. \<not> T - ts > max_age" key]
    by (simp split: option.splits)
qed

theorem expiry_cycle_witness:
  "distinct (map fst [((''10.0.0.5'', ''10.0.0.9'', 80::nat), 0::real),
                      ((''10.0.0.5'', ''10.0.0.9'', 443), 350)])
   \<and> cleaner_cycle 400 default_max_age_seconds
        [((''10.0.0.5'', ''10.0.0.9'', 80), 0), ((''10.0.0.5'', ''10.0.0.9'', 443), 350)] =
      Inr [((''10.0.0.5'', ''10.0.0.9'', 443), 350)]"
  using expiry_cycle_deletes_exactly_expired
    [of "[((''10.0.0.5'', ''10.0.0.9'', 80), 0), ((''10.0.0.5'', ''10.0.0.9'', 443), 350)]"
        400 default_max_age_seconds]
  by (simp add: default_max_age_seconds_def)

section \<open>Properties of the frame dissector and the capture worker\<close>

lemma upper_hex_digit:
  "d < 16 \<Longrightarrow> upper_char (''0123456789abcdef'' ! d) = ''0123456789ABCDEF'' ! d"
proof -
  assume "d < 16"
  then have "d = 0 \<or> d = 1 \<or> d = 2 \<or> d = 3 \<or> d = 4 \<or> d = 5 \<or> d = 6 \<or> d = 7 \<or> d = 8
    \<or> d = 9 \<or> d = 10 \<or> d = 11 \<or> d = 12 \<or> d = 13 \<or> d = 14 \<or> d = 15" by arith
  then show ?thesis
    by (elim disjE) (simp_all add: upper_char_def)
qed

lemma byte_nibbles: "unat (b::byte) div 16 < 16" "unat b mod 16 < 16"
proof -
  have "unat b < 256" using unsigned_less [of b] by simp
  then show "unat b div 16 < 16" by simp
  show "unat b mod 16 < 16" by simp
qed

lemma upper_format_02x:
  "upper (format_02x b) =
     [''0123456789ABCDEF'' ! (unat b div 16), ''0123456789ABCDEF'' ! (unat b mod 16)]"
  using upper_hex_digit [OF byte_nibbles(1) [of b]] upper_hex_digit [OF byte_nibbles(2) [of b]]
  by (simp add: upper_def format_02x_def del: nth_Cons_numeral)

lemma mac_format_hex:
  "mac_format mac =
     concat (map (\<lambda>b. [''0123456789ABCDEF'' ! (unat b div 16), ''0123456789ABCDEF'' ! (unat b mod 16)]) mac)"
proof (induction mac)
  case Nil
  show ?case by (simp add: mac_format_def upper_def)
next
  case (Cons b mac)
  have "mac_format (b # mac) = upper (format_02x b) @ mac_format mac"
    by (simp add: mac_format_def upper_def)
  then show ?case using Cons.IH by (simp add: upper_format_02x del: nth_Cons_numeral)
qed

lemma hex_digit_in: "d < 16 \<Longrightarrow> ''0123456789ABCDEF'' ! d \<in> set ''0123456789ABCDEF''"
  by (rule nth_mem) simp

lemma mac_format_length: "length (mac_format mac) = 2 * length mac"
  by (induction mac) (simp_all add: mac_format_def upper_def format_02x_def)

lemma mac_format_chars: "set (mac_format mac) \<subseteq> set ''0123456789ABCDEF''"
proof (induction mac)
  case Nil
  show ?case by (simp add: mac_format_def upper_def)
next
  case (Cons b mac)
  have "mac_format (b # mac) = upper (format_02x b) @ mac_format mac"
    by (simp add: mac_format_def upper_def)
  moreover have "set (upper (format_02x b)) \<subseteq> set ''0123456789ABCDEF''"
    unfolding upper_format_02x
    using hex_digit_in [OF byte_nibbles(1) [of b]] hex_digit_in [OF byte_nibbles(2) [of b]]
    by (simp del: nth_Cons_numeral)
  ultimately show ?case using Cons.IH by simp
qed

lemma be16_encode:
  "v < 65536 \<Longrightarrow> be16 (of_nat (v div 256)) (of_nat (v mod 256)) = v"
proof -
  assume v: "v < 65536"
  then have "v div 256 < 256" by simp
  then have "unat (of_nat (v div 256) :: byte) = v div 256" by (simp add: unat_of_nat)
  moreover have "unat (of_nat (v mod 256) :: byte) = v mod 256" by (simp add: unat_of_nat)
  ultimately show ?thesis by (simp add: be16_def)
qed

lemma htons_swap: "v < 65536 \<Longrightarrow> htons v = 256 * (v mod 256) + v div 256"
  by (simp add: htons_def)

lemma ipv4_format_4:
  "ipv4_format [a, b, c, d] = str (unat a) @ ''.'' @ str (unat b) @ ''.'' @ str (unat c) @ ''.'' @ str (unat d)"
  by (simp add: ipv4_format_def)


lemma decimal_digit_in: "d < 10 \<Longrightarrow> ''0123456789'' ! d \<in> set ''0123456789''"
  by (rule nth_mem) simp

lemma str_digits: "set (str n) \<subseteq> set ''0123456789''"
proof (induction n rule: str.induct)
  case (1 n)
  show ?case
  proof (cases "n < 10")
    case True
    from decimal_digit_in [OF True] have "set [''0123456789'' ! n] \<subseteq> set ''0123456789''"
      by (simp del: nth_Cons_numeral)
    moreover have "str n = [''0123456789'' ! n]" using True by (subst str.simps) simp
    ultimately show ?thesis by (simp only:)
  next
    case False
    have m: "n mod 10 < 10" by simp
    from decimal_digit_in [OF m]
    have "set [''0123456789'' ! (n mod 10)] \<subseteq> set ''0123456789''"
      by (simp del: nth_Cons_numeral)
    moreover have "str n = str (n div 10) @ [''0123456789'' ! (n mod 10)]"
      using False by (subst str.simps) simp
    moreover note "1.IH" [OF False]
    ultimately show ?thesis by (simp only: set_append Un_subset_iff)
  qed
qed

lemma ipv4_format_chars:
  "length address = 4 \<Longrightarrow> set (ipv4_format address) \<subseteq> set ''0123456789.''"
proof -
  assume "length address = 4"
  then obtain a b c d where ad: "address = [a, b, c, d]"
    by (auto simp: numeral_eq_Suc length_Suc_conv)
  have sub: "set ''0123456789'' \<subseteq> set ''0123456789.''" by auto
  have "\<And>x. set (str (unat (x::byte))) \<subseteq> set ''0123456789.''"
    using str_digits sub by (rule subset_trans)
  then show ?thesis
    unfolding ad ipv4_format_4 by (simp only: set_append Un_subset_iff) simp
qed

lemma ethernet_dissect_build:
  assumes "length dest_mac = 6" "length src_mac = 6"
  shows "ethernet_dissect (dest_mac @ src_mac @ [hi, lo] @ ip_data) =
           Inr (mac_format dest_mac, mac_format src_mac, htons (be16 hi lo), ip_data)"
  using assms by (simp add: ethernet_dissect_def unpack_6s6sH_def nth_append)

lemma ipv4_dissect_build:
  assumes "length header_start = 9" "length checksum = 2" "length source_ip = 4" "length target_ip = 4"
  shows "ipv4_dissect (header_start @ [p] @ checksum @ source_ip @ target_ip @ transport_data) =
           Inr (unat p, ipv4_format source_ip, ipv4_format target_ip, transport_data)"
  using assms by (simp add: ipv4_dissect_def unpack_9xB2x4s4s_def nth_append)

lemma unpack_ports_build:
  "unpack_HH (take 4 ([a, b, c, d] @ rest)) = Inr (be16 a b, be16 c d)"
  by (simp add: unpack_HH_def)

text \<open>
  C6. A frame is laid out from known field values: two 6-byte MAC addresses, the ethertype
  as two bytes in network order, the nine skipped bytes, the protocol byte, the two skipped
  bytes, two 4-byte addresses, two ports in network order, and any further bytes. Dissecting
  it with the Ethernet, IPv4 and TCP or UDP helpers gives back those values: each MAC as 12
  characters, two uppercase hexadecimal digits per byte with no separator; the ethertype
  with its two bytes exchanged; the protocol number; each address as its four bytes in
  decimal joined by dots (digits and dots only); both ports; and at each layer the
  remaining bytes.
\<close>

theorem dissection_round_trip:
  fixes dest_mac src_mac header_start checksum source_ip target_ip rest :: "byte list"
    and ethertype ip_protocol src_port dest_port :: nat
  defines "transport_data \<equiv>
             [of_nat (src_port div 256), of_nat (src_port mod 256),
              of_nat (dest_port div 256), of_nat (dest_port mod 256)] @ rest"
  defines "ip_data \<equiv> header_start @ [of_nat ip_protocol] @ checksum @ source_ip @ target_ip @ transport_data"
  defines "ethernet_data \<equiv>
             dest_mac @ src_mac @ [of_nat (ethertype div 256), of_nat (ethertype mod 256)] @ ip_data"
  assumes "length dest_mac = 6" and "length src_mac = 6"
    and "length header_start = 9" and "length checksum = 2"
    and "length source_ip = 4" and "length target_ip = 4"
    and "ethertype < 65536" and "ip_protocol < 256"
    and "src_port < 65536" and "dest_port < 65536"
  shows "ethernet_dissect ethernet_data =
           Inr (mac_format dest_mac, mac_format src_mac,
                256 * (ethertype mod 256) + ethertype div 256, ip_data)
       \<and> ipv4_dissect ip_data =
           Inr (ip_protocol, ipv4_format source_ip, ipv4_format target_ip, transport_data)
       \<and> tcp_dissect transport_data = Inr (src_port, dest_port)
       \<and> udp_dissect transport_data = Inr (src_port, dest_port)
       \<and> length (mac_format dest_mac) = 12 \<and> length (mac_format src_mac) = 12
       \<and> set (mac_format dest_mac) \<subseteq> set ''0123456789ABCDEF''
       \<and> set (mac_format src_mac) \<subseteq> set ''0123456789ABCDEF''
       \<and> mac_format dest_mac =
           concat (map (\<lambda>b. [''0123456789ABCDEF'' ! (unat b div 16),
                              ''0123456789ABCDEF'' ! (unat b mod 16)]) dest_mac)
       \<and> mac_format src_mac =
           concat (map (\<lambda>b. [''0123456789ABCDEF'' ! (unat b div 16),
                              ''0123456789ABCDEF'' ! (unat b mod 16)]) src_mac)
       \<and> ipv4_format source_ip =
           str (unat (source_ip ! 0)) @ ''.'' @ str (unat (source_ip ! 1)) @ ''.'' @
           str (unat (source_ip ! 2)) @ ''.'' @ str (unat (source_ip ! 3))
       \<and> ipv4_format target_ip =
           str (unat (target_ip ! 0)) @ ''.'' @ str (unat (target_ip ! 1)) @ ''.'' @
           str (unat (target_ip ! 2)) @ ''.'' @ str (unat (target_ip ! 3))
       \<and> set (ipv4_format source_ip) \<subseteq> set ''0123456789.''
       \<and> set (ipv4_format target_ip) \<subseteq> set ''0123456789.''"
proof -
  have e: "ethernet_dissect ethernet_data =
           Inr (mac_format dest_mac, mac_format src_mac,
                256 * (ethertype mod 256) + ethertype div 256, ip_data)"
    unfolding ethernet_data_def
    using ethernet_dissect_build [OF assms(4,5)] be16_encode [OF assms(10)] htons_swap [OF assms(10)]
    by simp
  have "unat (of_nat ip_protocol :: byte) = ip_protocol"
    using assms(11) by (simp add: unat_of_nat)
  then have i: "ipv4_dissect ip_data =
           Inr (ip_protocol, ipv4_format source_ip, ipv4_format target_ip, transport_data)"
    unfolding ip_data_def using ipv4_dissect_build [OF assms(6,7,8,9)] by simp
  have t: "tcp_dissect transport_data = Inr (src_port, dest_port)"
    and u: "udp_dissect transport_data = Inr (src_port, dest_port)"
    unfolding transport_data_def tcp_dissect_def udp_dissect_def unpack_ports_build
    using be16_encode [OF assms(12)] be16_encode [OF assms(13)] by simp_all
  have four: "\<And>ip :: byte list. length ip = 4 \<Longrightarrow> ip = [ip ! 0, ip ! 1, ip ! 2, ip ! 3]"
  proof -
    fix ip :: "byte list" assume "length ip = 4"
    then obtain a b c d where "ip = [a, b, c, d]"
      by (auto simp: numeral_eq_Suc length_Suc_conv)
    then show "ip = [ip ! 0, ip ! 1, ip ! 2, ip ! 3]"
      by simp
  qed
  have s: "ipv4_format source_ip =
           str (unat (source_ip ! 0)) @ ''.'' @ str (unat (source_ip ! 1)) @ ''.'' @
           str (unat (source_ip ! 2)) @ ''.'' @ str (unat (source_ip ! 3))"
    using ipv4_format_4 [of "source_ip ! 0" "source_ip ! 1" "source_ip ! 2" "source_ip ! 3"]
      four [OF assms(8)] by simp
  have d: "ipv4_format target_ip =
           str (unat (target_ip ! 0)) @ ''.'' @ str (unat (target_ip ! 1)) @ ''.'' @
           str (unat (target_ip ! 2)) @ ''.'' @ str (unat (target_ip ! 3))"
    using ipv4_format_4 [of "target_ip ! 0" "target_ip ! 1" "target_ip ! 2" "target_ip ! 3"]
      four [OF assms(9)] by simp
  have l: "length (mac_format dest_mac) = 12" "length (mac_format src_mac) = 12"
    using assms(4,5) by (simp_all add: mac_format_length)
  show ?thesis
    using e i t u s d l mac_format_chars [of dest_mac] mac_format_chars [of src_mac]
      mac_format_hex [of dest_mac] mac_format_hex [of src_mac]
      ipv4_format_chars [OF assms(8)] ipv4_format_chars [OF assms(9)]
    by blast
qed



theorem dissection_round_trip_witness:
  "length [1, 2, 3, 4, 5, 6 :: byte] = 6 \<and> (2048::nat) < 65536 \<and> (443::nat) < 65536
   \<and> ethernet_dissect
        ([1, 2, 3, 4, 5, 6] @ [170, 187, 204, 221, 238, 255] @ [8, 0] @
         [69, 0, 0, 40, 0, 0, 64, 0, 64] @ [6] @ [0, 0] @ [10, 0, 0, 5] @ [192, 168, 1, 9] @
         [48, 57, 1, 187] @ []) =
       Inr (''010203040506'', ''AABBCCDDEEFF'', 8,
            [69, 0, 0, 40, 0, 0, 64, 0, 64] @ [6] @ [0, 0] @ [10, 0, 0, 5] @ [192, 168, 1, 9] @
            [48, 57, 1, 187] @ [])
   \<and> ipv4_dissect
        ([69, 0, 0, 40, 0, 0, 64, 0, 64] @ [6] @ [0, 0] @ [10, 0, 0, 5] @ [192, 168, 1, 9] @
         [48, 57, 1, 187] @ []) =
       Inr (6, ''10.0.0.5'', ''192.168.1.9'', [48, 57, 1, 187])
   \<and> tcp_dissect [48, 57, 1, 187] = Inr (12345, 443)"
  using dissection_round_trip
    [where dest_mac = "[1, 2, 3, 4, 5, 6]" and src_mac = "[170, 187, 204, 221, 238, 255]"
       and header_start = "[69, 0, 0, 40, 0, 0, 64, 0, 64]" and checksum = "[0, 0]"
       and source_ip = "[10, 0, 0, 5]" and target_ip = "[192, 168, 1, 9]" and rest = "[]"
       and ethertype = 2048 and ip_protocol = 6 and src_port = 12345 and dest_port = 443]
  by (simp add: mac_format_def upper_def format_02x_def upper_char_def ipv4_format_def str.simps)

lemma short_frame_raises:
  "length ethernet_data < 14 \<Longrightarrow> ethernet_dissect ethernet_data = Inl StructError"
  by (simp add: ethernet_dissect_def unpack_6s6sH_def)

text \<open>
  C1 (as amended). A frame shorter than the 14-byte Ethernet header makes
  \<open>ethernet_dissect\<close> raise \<^verbatim>\<open>struct.error\<close>. The loop of the capture worker has no
  handler for it: the dictionary is left as it was, but the exception escapes and ends the
  loop, so no later frame is processed.
\<close>

theorem short_frame_ends_capture:
  assumes "length ethernet_data < 14"
  shows "process_frame first_contacts ethernet_data now = Inl StructError
       \<and> sniffer_run first_contacts (Frame ethernet_data now # rest) =
           (first_contacts, Some StructError)"
  using short_frame_raises [OF assms] by (simp add: process_frame_def)

theorem short_frame_ends_capture_witness:
  "length (replicate 10 (0::byte)) < 14
   \<and> sniffer_run [((''10.0.0.5'', ''10.0.0.9'', 80), 1)]
        (Frame (replicate 10 0) 2 # [Timeout]) =
       ([((''10.0.0.5'', ''10.0.0.9'', 80), 1)], Some StructError)"
  using short_frame_ends_capture
    [of "replicate 10 0" "[((''10.0.0.5'', ''10.0.0.9'', 80), 1)]" 2 "[Timeout]"]
  by simp

text \<open>
  C1 (as stated) fails: after a 10-byte frame the run ends with \<^verbatim>\<open>struct.error\<close> and the
  well-formed TCP frame that follows is never recorded, although on its own it is.
\<close>

theorem short_frame_counterexample:
  "sniffer_run []
     [Frame [0, 0, 0, 0, 0, 0, 0, 0, 0, 0] 1,
      Frame ([1, 2, 3, 4, 5, 6] @ [170, 187, 204, 221, 238, 255] @ [8, 0] @
             [69, 0, 0, 40, 0, 0, 64, 0, 64] @ [6] @ [0, 0] @ [10, 0, 0, 5] @ [192, 168, 1, 9] @
             [48, 57, 1, 187]) 2] =
     ([], Some StructError)
   \<and> sniffer_run []
     [Frame ([1, 2, 3, 4, 5, 6] @ [170, 187, 204, 221, 238, 255] @ [8, 0] @
             [69, 0, 0, 40, 0, 0, 64, 0, 64] @ [6] @ [0, 0] @ [10, 0, 0, 5] @ [192, 168, 1, 9] @
             [48, 57, 1, 187]) 2] =
     ([((''10.0.0.5'', ''192.168.1.9'', 443), 2)], None)"
  by (simp add: process_frame_def ethernet_dissect_def unpack_6s6sH_def htons_def be16_def
        ipv4_dissect_def unpack_9xB2x4s4s_def tcp_dissect_def unpack_HH_def
        ipv4_format_def str.simps mac_format_def)

lemma update_other_keys: "k \<noteq> key \<Longrightarrow> map_of (AList.update key v al) k = map_of al k"
  by (simp add: update_conv')

lemma process_frame_not_ipv4:
  "ethernet_dissect f = Inr (d, s, p, ip) \<Longrightarrow> p \<noteq> 8 \<Longrightarrow> process_frame tbl f now = Inr tbl"
  by (simp add: process_frame_def)

lemma process_frame_ipv4:
  "ethernet_dissect f = Inr (d, s, 8, ip) \<Longrightarrow>
   process_frame tbl f now =
     (case ipv4_dissect ip of
        Inl e \<Rightarrow> Inl e
      | Inr (ip_protocol, src_ip, dest_ip, transport_data) \<Rightarrow>
          if ip_protocol = 6 then
            (case tcp_dissect transport_data of
               Inl e \<Rightarrow> Inl e
             | Inr (src_port, dest_port) \<Rightarrow> Inr (AList.update (src_ip, dest_ip, dest_port) now tbl))
          else if ip_protocol = 17 then
            (case udp_dissect transport_data of
               Inl e \<Rightarrow> Inl e
             | Inr (src_port, dest_port) \<Rightarrow> Inr (AList.update (src_ip, dest_ip, dest_port) now tbl))
          else Inr tbl)"
  by (simp add: process_frame_def)

lemma process_frame_untracked:
  "ethernet_dissect f = Inr (d, s, 8, ip) \<Longrightarrow> ipv4_dissect ip = Inr (ipp, src, dst, td) \<Longrightarrow>
   ipp \<noteq> 6 \<Longrightarrow> ipp \<noteq> 17 \<Longrightarrow> process_frame tbl f now = Inr tbl"
  by (simp add: process_frame_ipv4)

lemma process_frame_tcp:
  "ethernet_dissect f = Inr (d, s, 8, ip) \<Longrightarrow> ipv4_dissect ip = Inr (6, src, dst, td) \<Longrightarrow>
   tcp_dissect td = Inr (sp, dp) \<Longrightarrow>
   process_frame tbl f now = Inr (AList.update (src, dst, dp) now tbl)"
  by (simp add: process_frame_ipv4)

lemma process_frame_udp:
  "ethernet_dissect f = Inr (d, s, 8, ip) \<Longrightarrow> ipv4_dissect ip = Inr (17, src, dst, td) \<Longrightarrow>
   udp_dissect td = Inr (sp, dp) \<Longrightarrow>
   process_frame tbl f now = Inr (AList.update (src, dst, dp) now tbl)"
  by (simp add: process_frame_ipv4)

lemma process_frame_result:
  assumes "process_frame tbl f now = Inr tbl'"
  shows "tbl' = tbl \<or> (\<exists>key. tbl' = AList.update key now tbl)"
proof (cases "ethernet_dissect f")
  case (Inl e)
  with assms show ?thesis by (simp add: process_frame_def)
next
  case (Inr r)
  obtain d s p ip where r: "r = (d, s, p, ip)" by (cases r) auto
  show ?thesis
  proof (cases "p = 8")
    case False
    with Inr r assms show ?thesis by (simp add: process_frame_not_ipv4)
  next
    case True
    with Inr r have e: "ethernet_dissect f = Inr (d, s, 8, ip)" by simp
    show ?thesis
    proof (cases "ipv4_dissect ip")
      case (Inl e')
      with assms e show ?thesis by (simp add: process_frame_ipv4)
    next
      case (Inr q)
      obtain ipp src dst td where q: "q = (ipp, src, dst, td)" by (cases q) auto
      with Inr have i: "ipv4_dissect ip = Inr (ipp, src, dst, td)" by simp
      consider "ipp = 6" | "ipp = 17" | "ipp \<noteq> 6" "ipp \<noteq> 17" by blast
      then show ?thesis
      proof cases
        case 1
        show ?thesis
        proof (cases "tcp_dissect td")
          case (Inl e')
          with assms e i 1 show ?thesis by (simp add: process_frame_ipv4)
        next
          case (Inr ports)
          obtain sp dp where "ports = (sp, dp)" by (cases ports)
          with Inr assms e i 1 show ?thesis by (auto simp add: process_frame_ipv4)
        qed
      next
        case 2
        show ?thesis
        proof (cases "udp_dissect td")
          case (Inl e')
          with assms e i 2 show ?thesis by (simp add: process_frame_ipv4)
        next
          case (Inr ports)
          obtain sp dp where "ports = (sp, dp)" by (cases ports)
          with Inr assms e i 2 show ?thesis by (auto simp add: process_frame_ipv4)
        qed
      next
        case 3
        with assms e i show ?thesis by (simp add: process_frame_ipv4)
      qed
    qed
  qed
qed



text \<open>
  C9. Processing one frame changes at most one entry of the dictionary. If the body raises,
  the run ends with the dictionary as it was. A frame whose ethertype is not 8, or whose IP
  protocol is neither 6 nor 17 (ICMP among them), leaves the dictionary unchanged. A TCP or
  UDP frame assigns \<open>now\<close> to the key \<open>(src_ip, dest_ip, dest_port)\<close>: every other key
  keeps its value, and the keys stay the same when that key is present already, so a
  repeated flow only has its timestamp replaced.
\<close>

theorem single_frame_effect:
  "(\<forall>e. process_frame first_contacts ethernet_data now = Inl e \<longrightarrow>
        sniffer_run first_contacts (Frame ethernet_data now # rest) = (first_contacts, Some e))
   \<and> (\<forall>dest_mac src_mac protocol ip_data.
        ethernet_dissect ethernet_data = Inr (dest_mac, src_mac, protocol, ip_data) \<and> protocol \<noteq> 8 \<longrightarrow>
        process_frame first_contacts ethernet_data now = Inr first_contacts)
   \<and> (\<forall>dest_mac src_mac ip_data ip_protocol src_ip dest_ip transport_data.
        ethernet_dissect ethernet_data = Inr (dest_mac, src_mac, 8, ip_data) \<and>
        ipv4_dissect ip_data = Inr (ip_protocol, src_ip, dest_ip, transport_data) \<and>
        ip_protocol \<noteq> 6 \<and> ip_protocol \<noteq> 17 \<longrightarrow>
        process_frame first_contacts ethernet_data now = Inr first_contacts)
   \<and> (\<forall>dest_mac src_mac ip_data ip_protocol src_ip dest_ip transport_data src_port dest_port.
        ethernet_dissect ethernet_data = Inr (dest_mac, src_mac, 8, ip_data) \<and>
        ipv4_dissect ip_data = Inr (ip_protocol, src_ip, dest_ip, transport_data) \<and>
        (ip_protocol = 6 \<and> tcp_dissect transport_data = Inr (src_port, dest_port) \<or>
         ip_protocol = 17 \<and> udp_dissect transport_data = Inr (src_port, dest_port)) \<longrightarrow>
        process_frame first_contacts ethernet_data now =
          Inr (AList.update (src_ip, dest_ip, dest_port) now first_contacts)
        \<and> map_of (AList.update (src_ip, dest_ip, dest_port) now first_contacts)
              (src_ip, dest_ip, dest_port) = Some now
        \<and> (\<forall>k. k \<noteq> (src_ip, dest_ip, dest_port) \<longrightarrow>
              map_of (AList.update (src_ip, dest_ip, dest_port) now first_contacts) k =
              map_of first_contacts k)
        \<and> map fst (AList.update (src_ip, dest_ip, dest_port) now first_contacts) =
            (if (src_ip, dest_ip, dest_port) \<in> set (map fst first_contacts)
             then map fst first_contacts
             else map fst first_contacts @ [(src_ip, dest_ip, dest_port)]))
   \<and> (\<forall>first_contacts'. process_frame first_contacts ethernet_data now = Inr first_contacts' \<longrightarrow>
        (\<exists>key. (first_contacts' = first_contacts \<or> first_contacts' = AList.update key now first_contacts)
           \<and> (\<forall>k. k \<noteq> key \<longrightarrow> map_of first_contacts' k = map_of first_contacts k)))"
proof (intro conjI allI impI)
  fix e assume "process_frame first_contacts ethernet_data now = Inl e"
  then show "sniffer_run first_contacts (Frame ethernet_data now # rest) = (first_contacts, Some e)"
    by simp
next
  fix dest_mac src_mac protocol ip_data
  assume "ethernet_dissect ethernet_data = Inr (dest_mac, src_mac, protocol, ip_data) \<and> protocol \<noteq> 8"
  then have e: "ethernet_dissect ethernet_data = Inr (dest_mac, src_mac, protocol, ip_data)"
    and p: "protocol \<noteq> 8" by simp_all
  show "process_frame first_contacts ethernet_data now = Inr first_contacts"
    by (rule process_frame_not_ipv4 [OF e p])
next
  fix dest_mac src_mac ip_data ip_protocol src_ip dest_ip transport_data
  assume "ethernet_dissect ethernet_data = Inr (dest_mac, src_mac, 8, ip_data) \<and>
        ipv4_dissect ip_data = Inr (ip_protocol, src_ip, dest_ip, transport_data) \<and>
        ip_protocol \<noteq> 6 \<and> ip_protocol \<noteq> 17"
  then have e: "ethernet_dissect ethernet_data = Inr (dest_mac, src_mac, 8, ip_data)"
    and i: "ipv4_dissect ip_data = Inr (ip_protocol, src_ip, dest_ip, transport_data)"
    and n: "ip_protocol \<noteq> 6" "ip_protocol \<noteq> 17" by simp_all
  show "process_frame first_contacts ethernet_data now = Inr first_contacts"
    by (rule process_frame_untracked [OF e i n])
next
  fix dest_mac src_mac ip_data ip_protocol src_ip dest_ip transport_data src_port dest_port
  assume a: "ethernet_dissect ethernet_data = Inr (dest_mac, src_mac, 8, ip_data) \<and>
        ipv4_dissect ip_data = Inr (ip_protocol, src_ip, dest_ip, transport_data) \<and>
        (ip_protocol = 6 \<and> tcp_dissect transport_data = Inr (src_port, dest_port) \<or>
         ip_protocol = 17 \<and> udp_dissect transport_data = Inr (src_port, dest_port))"
  then have e: "ethernet_dissect ethernet_data = Inr (dest_mac, src_mac, 8, ip_data)"
    and i: "ipv4_dissect ip_data = Inr (ip_protocol, src_ip, dest_ip, transport_data)"
    by simp_all
  from a have "ip_protocol = 6 \<and> tcp_dissect transport_data = Inr (src_port, dest_port) \<or>
         ip_protocol = 17 \<and> udp_dissect transport_data = Inr (src_port, dest_port)"
    by simp
  then consider "ip_protocol = 6" "tcp_dissect transport_data = Inr (src_port, dest_port)"
    | "ip_protocol = 17" "udp_dissect transport_data = Inr (src_port, dest_port)"
    by (elim disjE conjE)
  then show "process_frame first_contacts ethernet_data now =
          Inr (AList.update (src_ip, dest_ip, dest_port) now first_contacts)"
  proof cases
    case 1
    with e i show ?thesis using process_frame_tcp [of ethernet_data dest_mac src_mac ip_data src_ip dest_ip transport_data src_port dest_port] by simp
  next
    case 2
    with e i show ?thesis using process_frame_udp [of ethernet_data dest_mac src_mac ip_data src_ip dest_ip transport_data src_port dest_port] by simp
  qed
  show "map_of (AList.update (src_ip, dest_ip, dest_port) now first_contacts)
              (src_ip, dest_ip, dest_port) = Some now"
    by (simp add: update_conv')
  show "map fst (AList.update (src_ip, dest_ip, dest_port) now first_contacts) =
            (if (src_ip, dest_ip, dest_port) \<in> set (map fst first_contacts)
             then map fst first_contacts
             else map fst first_contacts @ [(src_ip, dest_ip, dest_port)])"
    by (rule update_keys)
  fix k :: flow_key assume "k \<noteq> (src_ip, dest_ip, dest_port)"
  then show "map_of (AList.update (src_ip, dest_ip, dest_port) now first_contacts) k =
              map_of first_contacts k"
    by (rule update_other_keys)
next
  fix first_contacts'
  assume "process_frame first_contacts ethernet_data now = Inr first_contacts'"
  then have "first_contacts' = first_contacts \<or>
      (\<exists>key. first_contacts' = AList.update key now first_contacts)"
    by (rule process_frame_result)
  then consider "first_contacts' = first_contacts"
    | key where "first_contacts' = AList.update key now first_contacts"
    by (elim disjE exE)
  then show "\<exists>key. (first_contacts' = first_contacts \<or> first_contacts' = AList.update key now first_contacts)
           \<and> (\<forall>k. k \<noteq> key \<longrightarrow> map_of first_contacts' k = map_of first_contacts k)"
  proof cases
    case 1
    then show ?thesis by simp
  next
    case 2
    then have "\<forall>k. k \<noteq> key \<longrightarrow> map_of first_contacts' k = map_of first_contacts k"
      by (simp add: update_other_keys)
    with 2 show ?thesis by (intro exI [of _ key]) simp
  qed
qed

theorem single_frame_effect_witness:
  "process_frame [((''10.0.0.5'', ''192.168.1.9'', 443), 1)]
     ([1, 2, 3, 4, 5, 6] @ [170, 187, 204, 221, 238, 255] @ [8, 0] @
      [69, 0, 0, 40, 0, 0, 64, 0, 64] @ [6] @ [0, 0] @ [10, 0, 0, 5] @ [192, 168, 1, 9] @
      [48, 57, 1, 187]) 2 =
   Inr [((''10.0.0.5'', ''192.168.1.9'', 443), 2)]"
proof -
  let ?frame = "[1, 2, 3, 4, 5, 6] @ [170, 187, 204, 221, 238, 255] @ [8, 0] @
      [69, 0, 0, 40, 0, 0, 64, 0, 64] @ [6] @ [0, 0] @ [10, 0, 0, 5] @ [192, 168, 1, 9] @
      [48, 57, 1, 187 :: byte]"
  let ?ip = "[69, 0, 0, 40, 0, 0, 64, 0, 64] @ [6] @ [0, 0] @ [10, 0, 0, 5] @ [192, 168, 1, 9] @
      [48, 57, 1, 187 :: byte]"
  have e: "ethernet_dissect ?frame = Inr (''010203040506'', ''AABBCCDDEEFF'', 8, ?ip)"
    by (simp add: ethernet_dissect_def unpack_6s6sH_def htons_def be16_def mac_format_def
          upper_def format_02x_def upper_char_def)
  have i: "ipv4_dissect ?ip = Inr (6, ''10.0.0.5'', ''192.168.1.9'', [48, 57, 1, 187])"
    by (simp add: ipv4_dissect_def unpack_9xB2x4s4s_def ipv4_format_def str.simps)
  have t: "tcp_dissect [48, 57, 1, 187] = Inr (12345, 443)"
    by (simp add: tcp_dissect_def unpack_HH_def be16_def)
  note all = single_frame_effect
    [of "[((''10.0.0.5'', ''192.168.1.9'', 443), 1)]" ?frame 2 "[]"]
  note tracked = all [THEN conjunct2, THEN conjunct2, THEN conjunct2, THEN conjunct1, rule_format,
    of "''010203040506''" "''AABBCCDDEEFF''" ?ip 6 "''10.0.0.5''" "''192.168.1.9''"
       "[48, 57, 1, 187]" 12345 443]
  have "process_frame [((''10.0.0.5'', ''192.168.1.9'', 443), 1)] ?frame 2 =
          Inr (AList.update (''10.0.0.5'', ''192.168.1.9'', 443) 2
                 [((''10.0.0.5'', ''192.168.1.9'', 443), 1)])"
    using tracked e i t by simp
  then show ?thesis by simp
qed

section \<open>Properties of the rate analyzer: the snapshot\<close>

lemma get_default_update:
  "get_default (AList.update k v d) k' dflt = (if k' = k then v else get_default d k' dflt)"
  by (simp add: get_default_def update_conv')

lemma get_default_cases:
  "map_of d k = (if k \<in> fst ` set d then Some (get_default d k dflt) else None)"
proof (cases "map_of d k")
  case None
  then show ?thesis by (simp add: map_of_eq_None_iff)
next
  case (Some v)
  then have "k \<in> fst ` set d" by (metis domI dom_map_of_conv_image_fst)
  with Some show ?thesis by (simp add: get_default_def)
qed

lemma count_flow_spec:
  assumes "length (get_default sc src [0, 0, 0]) = 3" and "i < 3"
  shows "count_flow sc src i =
           Inr (AList.update src
                  ((get_default sc src [0, 0, 0])[i := get_default sc src [0, 0, 0] ! i + 1]) sc)"
  using assms by (simp add: count_flow_def Let_def)

lemma range_ages: "[0..<length ages] = [0, 1, 2]"
  by (simp add: ages_def upt_rec)

lemma range_max_connections: "[0..<length max_connections] = [0, 1, 2]"
  by (simp add: max_connections_def upt_rec)

lemma scan_ages_spec:
  assumes "\<forall>s. length (get_default sc s [0, 0, 0]) = 3" and "\<forall>i\<in>set idxs. i < 3"
  shows "\<exists>sc'. scan_ages T ts src idxs sc = Inr sc'
        \<and> (\<forall>s. length (get_default sc' s [0, 0, 0]) = 3)
        \<and> (\<forall>s i. i < 3 \<longrightarrow>
              get_default sc' s [0, 0, 0] ! i =
              get_default sc s [0, 0, 0] ! i +
              (if s = src then length (filter (\<lambda>j. j = i \<and> T - ts < real (ages ! j)) idxs) else 0))
        \<and> fst ` set sc' =
            fst ` set sc \<union> (if \<exists>j\<in>set idxs. T - ts < real (ages ! j) then {src} else {})
        \<and> (distinct (map fst sc) \<longrightarrow> distinct (map fst sc'))"
  using assms
proof (induction idxs arbitrary: sc)
  case Nil
  then show ?case by simp
next
  case (Cons i idxs)
  have i3: "i < 3" and rest: "\<forall>i\<in>set idxs. i < 3" using Cons.prems(2) by simp_all
  show ?case
  proof (cases "T - ts < real (ages ! i)")
    case False
    from Cons.IH [OF Cons.prems(1) rest] obtain sc' where
      r: "scan_ages T ts src idxs sc = Inr sc'"
      and l: "\<forall>s. length (get_default sc' s [0, 0, 0]) = 3"
      and v: "\<forall>s i. i < 3 \<longrightarrow>
              get_default sc' s [0, 0, 0] ! i =
              get_default sc s [0, 0, 0] ! i +
              (if s = src then length (filter (\<lambda>j. j = i \<and> T - ts < real (ages ! j)) idxs) else 0)"
      and d: "fst ` set sc' =
            fst ` set sc \<union> (if \<exists>j\<in>set idxs. T - ts < real (ages ! j) then {src} else {})"
      and dist: "distinct (map fst sc) \<longrightarrow> distinct (map fst sc')"
      by blast
    have "scan_ages T ts src (i # idxs) sc = Inr sc'" using False r by simp
    moreover have "\<forall>s k. k < 3 \<longrightarrow>
              get_default sc' s [0, 0, 0] ! k =
              get_default sc s [0, 0, 0] ! k +
              (if s = src then length (filter (\<lambda>j. j = k \<and> T - ts < real (ages ! j)) (i # idxs)) else 0)"
      using v False by simp
    moreover have "fst ` set sc' =
            fst ` set sc \<union> (if \<exists>j\<in>set (i # idxs). T - ts < real (ages ! j) then {src} else {})"
      using d False by simp
    ultimately show ?thesis using l dist by blast
  next
    case True
    let ?v = "get_default sc src [0, 0, 0]"
    let ?sc1 = "AList.update src (?v[i := ?v ! i + 1]) sc"
    have l0: "length ?v = 3" using Cons.prems(1) by simp
    have c: "count_flow sc src i = Inr ?sc1"
      by (rule count_flow_spec [OF l0 i3])
    have l1: "\<forall>s. length (get_default ?sc1 s [0, 0, 0]) = 3"
      using Cons.prems(1) by (simp add: get_default_update)
    from Cons.IH [OF l1 rest] obtain sc' where
      r: "scan_ages T ts src idxs ?sc1 = Inr sc'"
      and l: "\<forall>s. length (get_default sc' s [0, 0, 0]) = 3"
      and v: "\<forall>s i. i < 3 \<longrightarrow>
              get_default sc' s [0, 0, 0] ! i =
              get_default ?sc1 s [0, 0, 0] ! i +
              (if s = src then length (filter (\<lambda>j. j = i \<and> T - ts < real (ages ! j)) idxs) else 0)"
      and d: "fst ` set sc' =
            fst ` set ?sc1 \<union> (if \<exists>j\<in>set idxs. T - ts < real (ages ! j) then {src} else {})"
      and dist: "distinct (map fst ?sc1) \<longrightarrow> distinct (map fst sc')"
      by blast
    have "scan_ages T ts src (i # idxs) sc = Inr sc'" using True c r by simp
    moreover have "\<forall>s k. k < 3 \<longrightarrow>
              get_default sc' s [0, 0, 0] ! k =
              get_default sc s [0, 0, 0] ! k +
              (if s = src then length (filter (\<lambda>j. j = k \<and> T - ts < real (ages ! j)) (i # idxs)) else 0)"
    proof (intro allI impI)
      fix s k :: _ assume k: "(k::nat) < 3"
      have "get_default ?sc1 s [0, 0, 0] ! k =
            get_default sc s [0, 0, 0] ! k + (if s = src \<and> i = k then 1 else 0)"
        using l0 k i3 by (simp add: get_default_update nth_list_update)
      with v k True show "get_default sc' s [0, 0, 0] ! k =
              get_default sc s [0, 0, 0] ! k +
              (if s = src then length (filter (\<lambda>j. j = k \<and> T - ts < real (ages ! j)) (i # idxs)) else 0)"
        by simp
    qed
    moreover have "fst ` set sc' =
            fst ` set sc \<union> (if \<exists>j\<in>set (i # idxs). T - ts < real (ages ! j) then {src} else {})"
      using d True by (auto simp: dom_update)
    moreover have "distinct (map fst sc) \<longrightarrow> distinct (map fst sc')"
      using dist by (simp add: distinct_update)
    ultimately show ?thesis using l by blast
  qed
qed

lemma scan_keys_spec:
  assumes "\<forall>s. length (get_default sc s [0, 0, 0]) = 3" and "set keys \<subseteq> fst ` set tbl"
  shows "\<exists>sc'. scan_keys T tbl keys sc = Inr sc'
        \<and> (\<forall>s. length (get_default sc' s [0, 0, 0]) = 3)
        \<and> (\<forall>s i. i < 3 \<longrightarrow>
              get_default sc' s [0, 0, 0] ! i =
              get_default sc s [0, 0, 0] ! i +
              length (filter (\<lambda>k. fst k = s \<and> T - the (map_of tbl k) < real (ages ! i)) keys))
        \<and> fst ` set sc' =
            fst ` set sc \<union>
            fst ` {k \<in> set keys. \<exists>j<3. T - the (map_of tbl k) < real (ages ! j)}
        \<and> (distinct (map fst sc) \<longrightarrow> distinct (map fst sc'))"
  using assms
proof (induction keys arbitrary: sc)
  case Nil
  then show ?case by simp
next
  case (Cons key keys)
  from Cons.prems(2) have "key \<in> fst ` set tbl" and sub: "set keys \<subseteq> fst ` set tbl"
    by simp_all
  then obtain ts where ts: "map_of tbl key = Some ts"
    by (metis domD dom_map_of_conv_image_fst)
  have idx: "\<forall>i\<in>set [0, 1, 2::nat]. i < 3" by simp
  from scan_ages_spec [OF Cons.prems(1) idx, of T ts "fst key"] obtain sc1 where
    s1: "scan_ages T ts (fst key) [0, 1, 2] sc = Inr sc1
      \<and> (\<forall>s. length (get_default sc1 s [0, 0, 0]) = 3)
      \<and> (\<forall>s i. i < 3 \<longrightarrow>
              get_default sc1 s [0, 0, 0] ! i =
              get_default sc s [0, 0, 0] ! i +
              (if s = fst key
               then length (filter (\<lambda>j. j = i \<and> T - ts < real (ages ! j)) [0, 1, 2]) else 0))
      \<and> fst ` set sc1 =
            fst ` set sc \<union> (if \<exists>j\<in>set [0, 1, 2]. T - ts < real (ages ! j) then {fst key} else {})
      \<and> (distinct (map fst sc) \<longrightarrow> distinct (map fst sc1))" ..
  note a = s1 [THEN conjunct1]
    and l1 = s1 [THEN conjunct2, THEN conjunct1]
    and v1 = s1 [THEN conjunct2, THEN conjunct2, THEN conjunct1]
    and d1 = s1 [THEN conjunct2, THEN conjunct2, THEN conjunct2, THEN conjunct1]
    and dist1 = s1 [THEN conjunct2, THEN conjunct2, THEN conjunct2, THEN conjunct2]
  from Cons.IH [OF l1 sub] obtain sc' where
    s2: "scan_keys T tbl keys sc1 = Inr sc'
      \<and> (\<forall>s. length (get_default sc' s [0, 0, 0]) = 3)
      \<and> (\<forall>s i. i < 3 \<longrightarrow>
              get_default sc' s [0, 0, 0] ! i =
              get_default sc1 s [0, 0, 0] ! i +
              length (filter (\<lambda>k. fst k = s \<and> T - the (map_of tbl k) < real (ages ! i)) keys))
      \<and> fst ` set sc' =
            fst ` set sc1 \<union>
            fst ` {k \<in> set keys. \<exists>j<3. T - the (map_of tbl k) < real (ages ! j)}
      \<and> (distinct (map fst sc1) \<longrightarrow> distinct (map fst sc'))" ..
  note r = s2 [THEN conjunct1]
    and l = s2 [THEN conjunct2, THEN conjunct1]
    and v = s2 [THEN conjunct2, THEN conjunct2, THEN conjunct1]
    and d = s2 [THEN conjunct2, THEN conjunct2, THEN conjunct2, THEN conjunct1]
    and dist = s2 [THEN conjunct2, THEN conjunct2, THEN conjunct2, THEN conjunct2]
  have one: "\<And>i. i < 3 \<Longrightarrow>
      length (filter (\<lambda>j. j = i \<and> T - ts < real (ages ! j)) [0, 1, 2]) =
      (if T - ts < real (ages ! i) then 1 else 0)"
  proof -
    fix i :: nat assume "i < 3"
    then have "i = 0 \<or> i = 1 \<or> i = 2" by arith
    then show "length (filter (\<lambda>j. j = i \<and> T - ts < real (ages ! j)) [0, 1, 2]) =
      (if T - ts < real (ages ! i) then 1 else 0)"
      by (elim disjE) simp_all
  qed
  have run: "scan_keys T tbl (key # keys) sc = Inr sc'"
    using ts a r by (simp add: range_ages)
  have vals: "\<forall>s i. i < 3 \<longrightarrow>
              get_default sc' s [0, 0, 0] ! i =
              get_default sc s [0, 0, 0] ! i +
              length (filter (\<lambda>k. fst k = s \<and> T - the (map_of tbl k) < real (ages ! i)) (key # keys))"
  proof (intro allI impI)
    fix s i assume i: "(i::nat) < 3"
    from v i have "get_default sc' s [0, 0, 0] ! i =
              get_default sc1 s [0, 0, 0] ! i +
              length (filter (\<lambda>k. fst k = s \<and> T - the (map_of tbl k) < real (ages ! i)) keys)"
      by simp
    moreover from v1 i one [OF i] have "get_default sc1 s [0, 0, 0] ! i =
              get_default sc s [0, 0, 0] ! i +
              (if s = fst key \<and> T - ts < real (ages ! i) then 1 else 0)"
      by simp
    moreover have "length (filter (\<lambda>k. fst k = s \<and> T - the (map_of tbl k) < real (ages ! i)) (key # keys)) =
        (if s = fst key \<and> T - ts < real (ages ! i) then 1 else 0) +
        length (filter (\<lambda>k. fst k = s \<and> T - the (map_of tbl k) < real (ages ! i)) keys)"
      using ts by (cases "s = fst key") auto
    ultimately show "get_default sc' s [0, 0, 0] ! i =
              get_default sc s [0, 0, 0] ! i +
              length (filter (\<lambda>k. fst k = s \<and> T - the (map_of tbl k) < real (ages ! i)) (key # keys))"
      by linarith
  qed
  have ex3: "(\<exists>j\<in>set [0, 1, 2::nat]. T - ts < real (ages ! j)) = (\<exists>j<3. T - ts < real (ages ! j))"
  proof -
    have "\<And>j::nat. (j < 3) = (j = 0 \<or> j = 1 \<or> j = 2)" by arith
    then show ?thesis by auto
  qed
  have dom: "fst ` set sc' =
            fst ` set sc \<union>
            fst ` {k \<in> set (key # keys). \<exists>j<3. T - the (map_of tbl k) < real (ages ! j)}"
  proof -
    have "{k \<in> set (key # keys). \<exists>j<3. T - the (map_of tbl k) < real (ages ! j)} =
          (if \<exists>j<3. T - ts < real (ages ! j) then {key} else {}) \<union>
          {k \<in> set keys. \<exists>j<3. T - the (map_of tbl k) < real (ages ! j)}"
      using ts by (cases "\<exists>j<3. T - ts < real (ages ! j)") auto
    then have "fst ` {k \<in> set (key # keys). \<exists>j<3. T - the (map_of tbl k) < real (ages ! j)} =
          fst ` ((if \<exists>j<3. T - ts < real (ages ! j) then {key} else {}) \<union>
          {k \<in> set keys. \<exists>j<3. T - the (map_of tbl k) < real (ages ! j)})"
      by (rule arg_cong)
    also have "\<dots> = (if \<exists>j<3. T - ts < real (ages ! j) then {fst key} else {}) \<union>
          fst ` {k \<in> set keys. \<exists>j<3. T - the (map_of tbl k) < real (ages ! j)}"
      by (cases "\<exists>j<3. T - ts < real (ages ! j)") (simp_all only: image_Un if_True if_False image_insert image_empty)
    finally show ?thesis unfolding d d1 ex3 by (simp only: Un_assoc)
  qed
  have dd: "distinct (map fst sc) \<longrightarrow> distinct (map fst sc')"
    using dist dist1 by simp
  show ?case
  proof (intro exI conjI)
    show "scan_keys T tbl (key # keys) sc = Inr sc'" by (fact run)
    show "\<forall>s. length (get_default sc' s [0, 0, 0]) = 3" by (fact l)
    show "\<forall>s i. i < 3 \<longrightarrow>
              get_default sc' s [0, 0, 0] ! i =
              get_default sc s [0, 0, 0] ! i +
              length (filter (\<lambda>k. fst k = s \<and> T - the (map_of tbl k) < real (ages ! i)) (key # keys))"
      by (fact vals)
    show "fst ` set sc' =
            fst ` set sc \<union>
            fst ` {k \<in> set (key # keys). \<exists>j<3. T - the (map_of tbl k) < real (ages ! j)}"
      by (fact dom)
    show "distinct (map fst sc) \<longrightarrow> distinct (map fst sc')" by (fact dd)
  qed
qed

lemma keys_count_entries:
  assumes "distinct (map fst tbl)"
  shows "length (filter (\<lambda>k. fst k = s \<and> T - the (map_of tbl k) < real a) (map fst tbl)) =
         flows_younger T tbl s a"
proof -
  have "filter (\<lambda>k. fst k = s \<and> T - the (map_of tbl k) < real a) (map fst tbl) =
        map fst (filter ((\<lambda>k. fst k = s \<and> T - the (map_of tbl k) < real a) \<circ> fst) tbl)"
    by (rule filter_map)
  moreover have "filter ((\<lambda>k. fst k = s \<and> T - the (map_of tbl k) < real a) \<circ> fst) tbl =
        filter (\<lambda>(key, ts). fst key = s \<and> T - ts < real a) tbl"
  proof (rule filter_cong [OF refl])
    fix p assume p: "p \<in> set tbl"
    obtain k ts where kt: "p = (k, ts)" by (cases p)
    with p assms have "map_of tbl k = Some ts" by simp
    with kt show "((\<lambda>k. fst k = s \<and> T - the (map_of tbl k) < real a) \<circ> fst) p =
        (case p of (key, ts) \<Rightarrow> fst key = s \<and> T - ts < real a)"
      by simp
  qed
  ultimately show ?thesis by (simp add: flows_younger_def)
qed

lemma ages_within: "(\<exists>j<3. x < real (ages ! j)) = (x < 300)"
proof
  assume "\<exists>j<3. x < real (ages ! j)"
  then obtain j where j: "j < 3" and x: "x < real (ages ! j)" by blast
  from j have "j = 0 \<or> j = 1 \<or> j = 2" by arith
  with x show "x < 300" by (elim disjE) (simp_all add: ages_def)
next
  assume "x < 300"
  then have "(2::nat) < 3 \<and> x < real (ages ! 2)" by (simp add: ages_def)
  then show "\<exists>j<3. x < real (ages ! j)" by blast
qed

lemma three_list: "length v = 3 \<Longrightarrow> v = [v ! 0, v ! 1, v ! 2]"
proof -
  assume "length v = 3"
  then obtain a b c where "v = [a, b, c]"
    by (auto simp: numeral_eq_Suc length_Suc_conv)
  then show ?thesis by simp
qed

lemma flows_younger_pos:
  assumes "distinct (map fst tbl)"
  shows "(s \<in> fst ` {k \<in> set (map fst tbl). T - the (map_of tbl k) < 300}) =
         (flows_younger T tbl s 300 \<noteq> 0)"
proof
  assume "s \<in> fst ` {k \<in> set (map fst tbl). T - the (map_of tbl k) < 300}"
  then obtain k where k: "k \<in> set (map fst tbl)" and s: "fst k = s"
    and a: "T - the (map_of tbl k) < 300" by blast
  from k obtain ts where in_tbl: "(k, ts) \<in> set tbl" by auto
  with assms have "map_of tbl k = Some ts" by simp
  with a s in_tbl have "(k, ts) \<in> set (filter (\<lambda>(key, ts). fst key = s \<and> T - ts < real 300) tbl)"
    by simp
  then have "filter (\<lambda>(key, ts). fst key = s \<and> T - ts < real 300) tbl \<noteq> []"
    by (metis empty_iff empty_set)
  then show "flows_younger T tbl s 300 \<noteq> 0"
    by (simp add: flows_younger_def)
next
  assume "flows_younger T tbl s 300 \<noteq> 0"
  then have "filter (\<lambda>(key, ts). fst key = s \<and> T - ts < real 300) tbl \<noteq> []"
    by (simp add: flows_younger_def)
  then obtain p where p: "p \<in> set (filter (\<lambda>(key, ts). fst key = s \<and> T - ts < real 300) tbl)"
    by (meson last_in_set)
  obtain k ts where kt: "p = (k, ts)" by (cases p)
  from p kt have in_tbl: "(k, ts) \<in> set tbl" and s: "fst k = s" and a: "T - ts < 300"
    by simp_all
  from in_tbl assms have "map_of tbl k = Some ts" by simp
  with a have "T - the (map_of tbl k) < 300" by simp
  moreover from in_tbl have "k \<in> set (map fst tbl)" by force
  ultimately have "k \<in> {k \<in> set (map fst tbl). T - the (map_of tbl k) < 300}" by simp
  then have "fst k \<in> fst ` {k \<in> set (map fst tbl). T - the (map_of tbl k) < 300}"
    by (rule imageI)
  with s show "s \<in> fst ` {k \<in> set (map fst tbl). T - the (map_of tbl k) < 300}" by simp
qed

lemma take_snapshot_spec:
  assumes "distinct (map fst tbl)"
  shows "\<exists>sc. take_snapshot T tbl = Inr sc \<and> distinct (map fst sc) \<and>
     (\<forall>s. map_of sc s =
        (if flows_younger T tbl s 300 = 0 then None
         else Some [flows_younger T tbl s 1, flows_younger T tbl s 60, flows_younger T tbl s 300]))"
proof -
  have l0: "\<forall>s::string. length (get_default ([]::snapshot) s [0, 0, 0]) = 3"
    by (simp add: get_default_def)
  have sub: "set (map fst tbl) \<subseteq> fst ` set tbl" by simp
  from scan_keys_spec [OF l0 sub, of T] obtain sc where
    sc: "scan_keys T tbl (map fst tbl) [] = Inr sc
      \<and> (\<forall>s. length (get_default sc s [0, 0, 0]) = 3)
      \<and> (\<forall>s i. i < 3 \<longrightarrow>
              get_default sc s [0, 0, 0] ! i =
              get_default [] s [0, 0, 0] ! i +
              length (filter (\<lambda>k. fst k = s \<and> T - the (map_of tbl k) < real (ages ! i)) (map fst tbl)))
      \<and> fst ` set sc =
            fst ` set ([]::snapshot) \<union>
            fst ` {k \<in> set (map fst tbl). \<exists>j<3. T - the (map_of tbl k) < real (ages ! j)}
      \<and> (distinct (map fst ([]::snapshot)) \<longrightarrow> distinct (map fst sc))" ..
  note run = sc [THEN conjunct1]
    and len = sc [THEN conjunct2, THEN conjunct1]
    and vals = sc [THEN conjunct2, THEN conjunct2, THEN conjunct1]
    and dom = sc [THEN conjunct2, THEN conjunct2, THEN conjunct2, THEN conjunct1]
    and dist = sc [THEN conjunct2, THEN conjunct2, THEN conjunct2, THEN conjunct2]
  have d: "distinct (map fst sc)" using dist by simp
  have v: "\<And>s i. i < 3 \<Longrightarrow> get_default sc s [0, 0, 0] ! i = flows_younger T tbl s (ages ! i)"
  proof -
    fix s i assume i: "(i::nat) < 3"
    have "i = 0 \<or> i = 1 \<or> i = 2" using i by arith
    then have z: "get_default ([]::snapshot) s [0, 0, 0] ! i = 0"
      by (elim disjE) (simp_all add: get_default_def)
    from vals [rule_format, OF i, of s] have "get_default sc s [0, 0, 0] ! i =
        get_default [] s [0, 0, 0] ! i +
        length (filter (\<lambda>k. fst k = s \<and> T - the (map_of tbl k) < real (ages ! i)) (map fst tbl))" .
    then show "get_default sc s [0, 0, 0] ! i = flows_younger T tbl s (ages ! i)"
      unfolding keys_count_entries [OF assms] z by simp
  qed
  have vec: "\<And>s. get_default sc s [0, 0, 0] =
      [flows_younger T tbl s 1, flows_younger T tbl s 60, flows_younger T tbl s 300]"
  proof -
    fix s
    have "get_default sc s [0, 0, 0] =
        [get_default sc s [0, 0, 0] ! 0, get_default sc s [0, 0, 0] ! 1, get_default sc s [0, 0, 0] ! 2]"
      using len by (intro three_list) simp
    moreover have "get_default sc s [0, 0, 0] ! 0 = flows_younger T tbl s 1"
      using v [of 0 s] by (simp add: ages_def)
    moreover have "get_default sc s [0, 0, 0] ! 1 = flows_younger T tbl s 60"
      using v [of 1 s] by (simp add: ages_def)
    moreover have "get_default sc s [0, 0, 0] ! 2 = flows_younger T tbl s 300"
      using v [of 2 s] by (simp add: ages_def)
    ultimately show "get_default sc s [0, 0, 0] =
      [flows_younger T tbl s 1, flows_younger T tbl s 60, flows_younger T tbl s 300]"
      by simp
  qed
  have member: "\<And>s. (s \<in> fst ` set sc) = (flows_younger T tbl s 300 \<noteq> 0)"
  proof -
    fix s
    have "fst ` set sc = fst ` {k \<in> set (map fst tbl). T - the (map_of tbl k) < 300}"
      using dom by (simp only: ages_within) simp
    then show "(s \<in> fst ` set sc) = (flows_younger T tbl s 300 \<noteq> 0)"
      using flows_younger_pos [OF assms, of s T] by simp
  qed
  have "\<forall>s. map_of sc s =
        (if flows_younger T tbl s 300 = 0 then None
         else Some [flows_younger T tbl s 1, flows_younger T tbl s 60, flows_younger T tbl s 300])"
  proof
    fix s
    show "map_of sc s =
        (if flows_younger T tbl s 300 = 0 then None
         else Some [flows_younger T tbl s 1, flows_younger T tbl s 60, flows_younger T tbl s 300])"
      using get_default_cases [of sc s "[0, 0, 0]"] member [of s] vec [of s] by simp
  qed
  with run d show ?thesis by (simp add: take_snapshot_def)
qed

lemma flows_younger_mono:
  "a \<le> b \<Longrightarrow> flows_younger T tbl s a \<le> flows_younger T tbl s b"
proof (induction tbl)
  case Nil
  show ?case by (simp add: flows_younger_def)
next
  case (Cons p tbl)
  obtain k ts where p: "p = (k, ts)" by (cases p)
  from Cons.prems have "T - ts < real a \<Longrightarrow> T - ts < real b" by simp
  with Cons.IH [OF Cons.prems] p show ?case
    by (auto simp: flows_younger_def)
qed

text \<open>
  C2 (as amended). The vector built for a source is ordered as \<open>ages\<close> is, shortest window
  first: index 0 holds the count of its flows younger than 1 second, index 1 the count
  younger than 1 minute, index 2 the count younger than 5 minutes; a source with no flow
  younger than 5 minutes has no vector. The scan never raises.
\<close>

theorem snapshot_vector_order:
  assumes "distinct (map fst first_contacts)"
  shows "\<exists>source_connections.
           take_snapshot current_time first_contacts = Inr source_connections
         \<and> (\<forall>source. map_of source_connections source =
               (if flows_younger current_time first_contacts source 300 = 0 then None
                else Some [flows_younger current_time first_contacts source 1,
                           flows_younger current_time first_contacts source 60,
                           flows_younger current_time first_contacts source 300]))
         \<and> (\<forall>source rates. map_of source_connections source = Some rates \<longrightarrow>
               length rates = 3
             \<and> rates ! 0 = flows_younger current_time first_contacts source 1
             \<and> rates ! 1 = flows_younger current_time first_contacts source 60
             \<and> rates ! 2 = flows_younger current_time first_contacts source 300)"
proof -
  from take_snapshot_spec [OF assms, of current_time] obtain sc where
    sc: "take_snapshot current_time first_contacts = Inr sc \<and> distinct (map fst sc) \<and>
     (\<forall>s. map_of sc s =
        (if flows_younger current_time first_contacts s 300 = 0 then None
         else Some [flows_younger current_time first_contacts s 1,
                    flows_younger current_time first_contacts s 60,
                    flows_younger current_time first_contacts s 300]))" ..
  note run = sc [THEN conjunct1] and vec = sc [THEN conjunct2, THEN conjunct2]
  have "\<forall>source rates. map_of sc source = Some rates \<longrightarrow>
               length rates = 3
             \<and> rates ! 0 = flows_younger current_time first_contacts source 1
             \<and> rates ! 1 = flows_younger current_time first_contacts source 60
             \<and> rates ! 2 = flows_younger current_time first_contacts source 300"
  proof (intro allI impI)
    fix source rates assume "map_of sc source = Some rates"
    with vec [rule_format, of source]
    have "rates = [flows_younger current_time first_contacts source 1,
                   flows_younger current_time first_contacts source 60,
                   flows_younger current_time first_contacts source 300]"
      by (simp split: if_splits)
    then show "length rates = 3
             \<and> rates ! 0 = flows_younger current_time first_contacts source 1
             \<and> rates ! 1 = flows_younger current_time first_contacts source 60
             \<and> rates ! 2 = flows_younger current_time first_contacts source 300"
      by simp
  qed
  with run vec show ?thesis by (intro exI [of _ sc]) simp
qed

theorem snapshot_vector_order_witness:
  "distinct (map fst [((''10.0.0.5'', ''10.0.0.9'', 80::nat), 70::real)])
   \<and> (\<exists>source_connections.
        take_snapshot 100 [((''10.0.0.5'', ''10.0.0.9'', 80), 70)] = Inr source_connections
      \<and> map_of source_connections ''10.0.0.5'' = Some [0, 1, 1])"
proof -
  have d: "distinct (map fst [((''10.0.0.5'', ''10.0.0.9'', 80::nat), 70::real)])" by simp
  from snapshot_vector_order [OF d, of 100] obtain sc where
    sc: "take_snapshot 100 [((''10.0.0.5'', ''10.0.0.9'', 80), 70)] = Inr sc
         \<and> (\<forall>source. map_of sc source =
               (if flows_younger 100 [((''10.0.0.5'', ''10.0.0.9'', 80), 70)] source 300 = 0 then None
                else Some [flows_younger 100 [((''10.0.0.5'', ''10.0.0.9'', 80), 70)] source 1,
                           flows_younger 100 [((''10.0.0.5'', ''10.0.0.9'', 80), 70)] source 60,
                           flows_younger 100 [((''10.0.0.5'', ''10.0.0.9'', 80), 70)] source 300]))
         \<and> (\<forall>source rates. map_of sc source = Some rates \<longrightarrow>
               length rates = 3
             \<and> rates ! 0 = flows_younger 100 [((''10.0.0.5'', ''10.0.0.9'', 80), 70)] source 1
             \<and> rates ! 1 = flows_younger 100 [((''10.0.0.5'', ''10.0.0.9'', 80), 70)] source 60
             \<and> rates ! 2 = flows_younger 100 [((''10.0.0.5'', ''10.0.0.9'', 80), 70)] source 300)" ..
  from sc [THEN conjunct2, THEN conjunct1, rule_format, of "''10.0.0.5''"]
  have "map_of sc ''10.0.0.5'' = Some [0, 1, 1]"
    by (simp add: flows_younger_def)
  with sc [THEN conjunct1] d show ?thesis by (intro conjI exI [of _ sc]) simp_all
qed

text \<open>
  C2 (as stated) fails: for one flow aged 30 seconds the vector is \<open>[0, 1, 1]\<close>. Index 0
  holds 0, the count younger than 1 second, although one flow is younger than 5 minutes;
  index 2 holds 1, the count younger than 5 minutes, although no flow is younger than
  1 second.
\<close>

theorem snapshot_vector_order_counterexample:
  "take_snapshot 100 [((''10.0.0.5'', ''10.0.0.9'', 80), 70)] = Inr [(''10.0.0.5'', [0, 1, 1])]
   \<and> flows_younger 100 [((''10.0.0.5'', ''10.0.0.9'', 80), 70)] ''10.0.0.5'' 300 = 1
   \<and> flows_younger 100 [((''10.0.0.5'', ''10.0.0.9'', 80), 70)] ''10.0.0.5'' 1 = 0
   \<and> [0, 1, 1] ! 0 \<noteq> flows_younger 100 [((''10.0.0.5'', ''10.0.0.9'', 80), 70)] ''10.0.0.5'' 300
   \<and> [0, 1, 1] ! 2 \<noteq> flows_younger 100 [((''10.0.0.5'', ''10.0.0.9'', 80), 70)] ''10.0.0.5'' 1"
  by (simp add: take_snapshot_def range_ages ages_def count_flow_def get_default_def
        flows_younger_def)

text \<open>
  C7. In a snapshot taken against one clock reading, the three counts of every source are
  monotonic: the 1-second count (index 0) is at most the 1-minute count (index 1), which is
  at most the 5-minute count (index 2), as holds for the counts of flows read off the
  dictionary.
\<close>

theorem window_counts_monotonic:
  assumes "distinct (map fst first_contacts)"
  shows "\<exists>source_connections.
           take_snapshot current_time first_contacts = Inr source_connections
         \<and> (\<forall>source rates. map_of source_connections source = Some rates \<longrightarrow>
               rates = [flows_younger current_time first_contacts source 1,
                        flows_younger current_time first_contacts source 60,
                        flows_younger current_time first_contacts source 300]
             \<and> rates ! 0 \<le> rates ! 1 \<and> rates ! 1 \<le> rates ! 2)
         \<and> (\<forall>source. flows_younger current_time first_contacts source 1
                       \<le> flows_younger current_time first_contacts source 60
                     \<and> flows_younger current_time first_contacts source 60
                       \<le> flows_younger current_time first_contacts source 300)"
proof -
  from take_snapshot_spec [OF assms, of current_time] obtain sc where
    sc: "take_snapshot current_time first_contacts = Inr sc \<and> distinct (map fst sc) \<and>
     (\<forall>s. map_of sc s =
        (if flows_younger current_time first_contacts s 300 = 0 then None
         else Some [flows_younger current_time first_contacts s 1,
                    flows_younger current_time first_contacts s 60,
                    flows_younger current_time first_contacts s 300]))" ..
  note run = sc [THEN conjunct1] and vec = sc [THEN conjunct2, THEN conjunct2]
  have mono: "\<forall>source. flows_younger current_time first_contacts source 1
                       \<le> flows_younger current_time first_contacts source 60
                     \<and> flows_younger current_time first_contacts source 60
                       \<le> flows_younger current_time first_contacts source 300"
    by (simp add: flows_younger_mono)
  have "\<forall>source rates. map_of sc source = Some rates \<longrightarrow>
               rates = [flows_younger current_time first_contacts source 1,
                        flows_younger current_time first_contacts source 60,
                        flows_younger current_time first_contacts source 300]
             \<and> rates ! 0 \<le> rates ! 1 \<and> rates ! 1 \<le> rates ! 2"
  proof (intro allI impI)
    fix source rates assume "map_of sc source = Some rates"
    with vec [rule_format, of source]
    have "rates = [flows_younger current_time first_contacts source 1,
                   flows_younger current_time first_contacts source 60,
                   flows_younger current_time first_contacts source 300]"
      by (simp split: if_splits)
    with mono [rule_format, of source]
    show "rates = [flows_younger current_time first_contacts source 1,
                        flows_younger current_time first_contacts source 60,
                        flows_younger current_time first_contacts source 300]
             \<and> rates ! 0 \<le> rates ! 1 \<and> rates ! 1 \<le> rates ! 2"
      by simp
  qed
  with run mono show ?thesis by (intro exI [of _ sc]) simp
qed

theorem window_counts_monotonic_witness:
  "distinct (map fst [((''10.0.0.5'', ''10.0.0.9'', 80::nat), 99.5::real),
                      ((''10.0.0.5'', ''10.0.0.9'', 443), 70),
                      ((''10.0.0.5'', ''10.0.0.7'', 22), 0)])
   \<and> flows_younger 100 [((''10.0.0.5'', ''10.0.0.9'', 80), 99.5),
                         ((''10.0.0.5'', ''10.0.0.9'', 443), 70),
                         ((''10.0.0.5'', ''10.0.0.7'', 22), 0)] ''10.0.0.5'' 1
     \<le> flows_younger 100 [((''10.0.0.5'', ''10.0.0.9'', 80), 99.5),
                         ((''10.0.0.5'', ''10.0.0.9'', 443), 70),
                         ((''10.0.0.5'', ''10.0.0.7'', 22), 0)] ''10.0.0.5'' 60
   \<and> take_snapshot 100 [((''10.0.0.5'', ''10.0.0.9'', 80), 99.5),
                         ((''10.0.0.5'', ''10.0.0.9'', 443), 70),
                         ((''10.0.0.5'', ''10.0.0.7'', 22), 0)] =
       Inr [(''10.0.0.5'', [1, 2, 3])]"
  using window_counts_monotonic
    [of "[((''10.0.0.5'', ''10.0.0.9'', 80), 99.5),
          ((''10.0.0.5'', ''10.0.0.9'', 443), 70),
          ((''10.0.0.5'', ''10.0.0.7'', 22), 0)]" 100]
  by (simp add: take_snapshot_def range_ages ages_def count_flow_def get_default_def
        flows_younger_def)

section \<open>Properties of the rate analyzer: thresholds and alerts\<close>

lemma check_thresholds_find:
  assumes "\<forall>i\<in>set idxs. i < length rates"
  shows "check_thresholds rates listed idxs =
           Inr (List.find (\<lambda>i. rates ! i > max_connections ! i \<and> i \<notin> set listed) idxs)"
  using assms by (induction idxs) simp_all

lemma check_thresholds_spec:
  assumes "length rates = 3"
  shows "check_thresholds rates listed [0..<length max_connections] =
           Inr (first_new_tier rates listed)"
proof -
  have "\<forall>i\<in>set [0, 1, 2::nat]. i < length rates" using assms by simp
  from check_thresholds_find [OF this] show ?thesis
    by (simp only: range_max_connections first_new_tier_def)
qed

lemma first_new_tier_Some:
  "first_new_tier rates listed = Some i \<Longrightarrow>
     i < 3 \<and> rates ! i > max_connections ! i \<and> i \<notin> set listed
     \<and> (\<forall>j<i. \<not> (rates ! j > max_connections ! j \<and> j \<notin> set listed))"
  by (auto simp: first_new_tier_def less_Suc_eq numeral_eq_Suc split: if_splits)

lemma first_new_tier_None:
  "first_new_tier rates listed = None \<Longrightarrow>
     (\<forall>j<3. \<not> (rates ! j > max_connections ! j \<and> j \<notin> set listed))"
  by (auto simp: first_new_tier_def less_Suc_eq numeral_eq_Suc split: if_splits)

lemma report_spec: "length rates = 3 \<Longrightarrow> i < 3 \<Longrightarrow> report key rates i = Inr (alert_of key rates i)"
  by (simp add: report_def)

lemma analyze_step_none:
  assumes "map_of sc key = Some rates" and "length rates = 3"
    and "first_new_tier rates (get_default bl key []) = None"
  shows "analyze sc (key # keys) bl = analyze sc keys bl"
  using assms(1,3) check_thresholds_spec [OF assms(2), of "get_default bl key []"] by simp

lemma analyze_step_some:
  assumes "map_of sc key = Some rates" and "length rates = 3"
    and "first_new_tier rates (get_default bl key []) = Some i"
    and "analyze sc keys (AList.update key (get_default bl key [] @ [i]) bl) = Inr (alerts, bl')"
  shows "analyze sc (key # keys) bl = Inr (alert_of key rates i # alerts, bl')"
proof -
  from first_new_tier_Some [OF assms(3)] have "i < 3" by simp
  from report_spec [OF assms(2) this] have "report key rates i = Inr (alert_of key rates i)" .
  with assms(1,3,4) check_thresholds_spec [OF assms(2), of "get_default bl key []"]
  show ?thesis by simp
qed

lemma analyze_spec:
  assumes "distinct keys"
    and "\<forall>k\<in>set keys. \<exists>rates. map_of sc k = Some rates \<and> length rates = 3"
  shows "\<exists>alerts bl'. analyze sc keys bl = Inr (alerts, bl')
      \<and> alerts = concat (map (\<lambda>k.
            case first_new_tier (the (map_of sc k)) (get_default bl k []) of
              None \<Rightarrow> []
            | Some i \<Rightarrow> [alert_of k (the (map_of sc k)) i]) keys)
      \<and> (\<forall>k. get_default bl' k [] =
            get_default bl k [] @
            (if k \<in> set keys
             then (case first_new_tier (the (map_of sc k)) (get_default bl k []) of
                     None \<Rightarrow> []
                   | Some i \<Rightarrow> [i])
             else []))"
  using assms
proof (induction keys arbitrary: bl)
  case Nil
  show ?case by simp
next
  case (Cons key keys)
  from Cons.prems(1) have nk: "key \<notin> set keys" and dk: "distinct keys" by simp_all
  from Cons.prems(2) obtain rates where rates: "map_of sc key = Some rates"
    and len: "length rates = 3" by auto
  from Cons.prems(2) have rest: "\<forall>k\<in>set keys. \<exists>rates. map_of sc k = Some rates \<and> length rates = 3"
    by simp
  show ?case
  proof (cases "first_new_tier rates (get_default bl key [])")
    case None
    from Cons.IH [OF dk rest, of bl] obtain alerts bl' where
      ih: "analyze sc keys bl = Inr (alerts, bl')
      \<and> alerts = concat (map (\<lambda>k.
            case first_new_tier (the (map_of sc k)) (get_default bl k []) of
              None \<Rightarrow> []
            | Some i \<Rightarrow> [alert_of k (the (map_of sc k)) i]) keys)
      \<and> (\<forall>k. get_default bl' k [] =
            get_default bl k [] @
            (if k \<in> set keys
             then (case first_new_tier (the (map_of sc k)) (get_default bl k []) of
                     None \<Rightarrow> []
                   | Some i \<Rightarrow> [i])
             else []))"
      by (elim exE) (rule that)
    have run: "analyze sc (key # keys) bl = Inr (alerts, bl')"
      using analyze_step_none [OF rates len None] ih by simp
    have al: "alerts = concat (map (\<lambda>k.
            case first_new_tier (the (map_of sc k)) (get_default bl k []) of
              None \<Rightarrow> []
            | Some i \<Rightarrow> [alert_of k (the (map_of sc k)) i]) (key # keys))"
      using ih rates None by simp
    have b: "\<forall>k. get_default bl' k [] =
            get_default bl k [] @
            (if k \<in> set (key # keys)
             then (case first_new_tier (the (map_of sc k)) (get_default bl k []) of
                     None \<Rightarrow> []
                   | Some i \<Rightarrow> [i])
             else [])"
    proof
      fix k
      show "get_default bl' k [] =
            get_default bl k [] @
            (if k \<in> set (key # keys)
             then (case first_new_tier (the (map_of sc k)) (get_default bl k []) of
                     None \<Rightarrow> []
                   | Some i \<Rightarrow> [i])
             else [])"
        using ih [THEN conjunct2, THEN conjunct2, rule_format, of k] rates None nk
        by (cases "k = key") simp_all
    qed
    from run al b show ?thesis by blast
  next
    case (Some i)
    let ?bl1 = "AList.update key (get_default bl key [] @ [i]) bl"
    have same: "\<And>k. k \<noteq> key \<Longrightarrow> get_default ?bl1 k [] = get_default bl k []"
      by (simp add: get_default_update)
    from Cons.IH [OF dk rest, of ?bl1] obtain alerts bl' where
      ih: "analyze sc keys ?bl1 = Inr (alerts, bl')
      \<and> alerts = concat (map (\<lambda>k.
            case first_new_tier (the (map_of sc k)) (get_default ?bl1 k []) of
              None \<Rightarrow> []
            | Some i \<Rightarrow> [alert_of k (the (map_of sc k)) i]) keys)
      \<and> (\<forall>k. get_default bl' k [] =
            get_default ?bl1 k [] @
            (if k \<in> set keys
             then (case first_new_tier (the (map_of sc k)) (get_default ?bl1 k []) of
                     None \<Rightarrow> []
                   | Some i \<Rightarrow> [i])
             else []))"
      by (elim exE) (rule that)
    have run: "analyze sc (key # keys) bl = Inr (alert_of key rates i # alerts, bl')"
      by (rule analyze_step_some [OF rates len Some ih [THEN conjunct1]])
    have m: "map (\<lambda>k.
            case first_new_tier (the (map_of sc k)) (get_default ?bl1 k []) of
              None \<Rightarrow> []
            | Some i \<Rightarrow> [alert_of k (the (map_of sc k)) i]) keys =
          map (\<lambda>k.
            case first_new_tier (the (map_of sc k)) (get_default bl k []) of
              None \<Rightarrow> []
            | Some i \<Rightarrow> [alert_of k (the (map_of sc k)) i]) keys"
    proof (rule map_cong [OF refl])
      fix k assume "k \<in> set keys"
      with nk have "k \<noteq> key" by auto
      from same [OF this]
      show "(case first_new_tier (the (map_of sc k)) (get_default ?bl1 k []) of
              None \<Rightarrow> []
            | Some i \<Rightarrow> [alert_of k (the (map_of sc k)) i]) =
            (case first_new_tier (the (map_of sc k)) (get_default bl k []) of
              None \<Rightarrow> []
            | Some i \<Rightarrow> [alert_of k (the (map_of sc k)) i])"
        by simp
    qed
    have al: "alert_of key rates i # alerts = concat (map (\<lambda>k.
            case first_new_tier (the (map_of sc k)) (get_default bl k []) of
              None \<Rightarrow> []
            | Some i \<Rightarrow> [alert_of k (the (map_of sc k)) i]) (key # keys))"
      using ih [THEN conjunct2, THEN conjunct1] rates Some by (simp only: m) simp
    have b: "\<forall>k. get_default bl' k [] =
            get_default bl k [] @
            (if k \<in> set (key # keys)
             then (case first_new_tier (the (map_of sc k)) (get_default bl k []) of
                     None \<Rightarrow> []
                   | Some i \<Rightarrow> [i])
             else [])"
    proof
      fix k
      show "get_default bl' k [] =
            get_default bl k [] @
            (if k \<in> set (key # keys)
             then (case first_new_tier (the (map_of sc k)) (get_default bl k []) of
                     None \<Rightarrow> []
                   | Some i \<Rightarrow> [i])
             else [])"
      proof (cases "k = key")
        case True
        with ih [THEN conjunct2, THEN conjunct2, rule_format, of key] nk rates Some
        show ?thesis by (simp add: get_default_update)
      next
        case False
        with ih [THEN conjunct2, THEN conjunct2, rule_format, of k] same [OF False]
        show ?thesis by simp
      qed
    qed
    from run al b show ?thesis by blast
  qed
qed

lemma filter_concat_map_key:
  assumes "distinct keys" and "\<forall>k\<in>set keys. \<forall>a\<in>set (f k). g a = k"
  shows "filter (\<lambda>a. g a = S) (concat (map f keys)) = (if S \<in> set keys then f S else [])"
  using assms
proof (induction keys)
  case Nil
  show ?case by simp
next
  case (Cons key keys)
  from Cons.prems have nk: "key \<notin> set keys" and dk: "distinct keys"
    and own: "\<forall>a\<in>set (f key). g a = key"
    and rest: "\<forall>k\<in>set keys. \<forall>a\<in>set (f k). g a = k" by simp_all
  note ih = Cons.IH [OF dk rest]
  show ?case
  proof (cases "key = S")
    case True
    with own have "filter (\<lambda>a. g a = S) (f key) = f key" by (simp add: filter_id_conv)
    with True nk ih show ?thesis by simp
  next
    case False
    with own have "filter (\<lambda>a. g a = S) (f key) = []" by (auto simp: filter_empty_conv)
    with False ih show ?thesis by simp
  qed
qed

lemma first_new_tier_zero: "first_new_tier [0, 0, 0] listed = None"
  by (simp add: first_new_tier_def max_connections_def)

lemma cycle_spec:
  assumes "distinct (map fst tbl)"
  shows "\<exists>alerts bl'. analyzer_cycle T tbl bl = Inr (alerts, bl')
     \<and> (\<forall>S. filter (\<lambda>a. alert_ip a = S) alerts =
           (case first_new_tier [flows_younger T tbl S 1, flows_younger T tbl S 60,
                                 flows_younger T tbl S 300] (get_default bl S []) of
              None \<Rightarrow> []
            | Some i \<Rightarrow> [alert_of S [flows_younger T tbl S 1, flows_younger T tbl S 60,
                                     flows_younger T tbl S 300] i]))
     \<and> (\<forall>S. get_default bl' S [] =
           get_default bl S [] @
           (case first_new_tier [flows_younger T tbl S 1, flows_younger T tbl S 60,
                                 flows_younger T tbl S 300] (get_default bl S []) of
              None \<Rightarrow> []
            | Some i \<Rightarrow> [i]))"
proof -
  let ?wc = "\<lambda>S. [flows_younger T tbl S 1, flows_younger T tbl S 60, flows_younger T tbl S 300]"
  let ?f = "\<lambda>sc k. case first_new_tier (the (map_of sc k)) (get_default bl k []) of
              None \<Rightarrow> []
            | Some i \<Rightarrow> [alert_of k (the (map_of sc k)) i]"
  from take_snapshot_spec [OF assms, of T] obtain sc where
    sc: "take_snapshot T tbl = Inr sc \<and> distinct (map fst sc) \<and>
     (\<forall>s. map_of sc s = (if flows_younger T tbl s 300 = 0 then None else Some (?wc s)))" ..
  note snap = sc [THEN conjunct1] and dsc = sc [THEN conjunct2, THEN conjunct1]
    and vec = sc [THEN conjunct2, THEN conjunct2, rule_format]
  have present: "\<And>k. k \<in> set (map fst sc) \<Longrightarrow> map_of sc k = Some (?wc k)"
  proof -
    fix k assume "k \<in> set (map fst sc)"
    then have "map_of sc k \<noteq> None" by (simp add: map_of_eq_None_iff)
    with vec [of k] show "map_of sc k = Some (?wc k)" by (simp split: if_splits)
  qed
  have absent: "\<And>k. k \<notin> set (map fst sc) \<Longrightarrow> ?wc k = [0, 0, 0]"
  proof -
    fix k assume "k \<notin> set (map fst sc)"
    then have "map_of sc k = None" by (simp add: map_of_eq_None_iff)
    with vec [of k] have z: "flows_younger T tbl k 300 = 0" by (simp split: if_splits)
    have "flows_younger T tbl k 1 \<le> flows_younger T tbl k 300"
      and "flows_younger T tbl k 60 \<le> flows_younger T tbl k 300"
      by (simp_all add: flows_younger_mono)
    with z show "?wc k = [0, 0, 0]" by simp
  qed
  have ok: "\<forall>k\<in>set (map fst sc). \<exists>rates. map_of sc k = Some rates \<and> length rates = 3"
  proof
    fix k assume "k \<in> set (map fst sc)"
    from present [OF this] show "\<exists>rates. map_of sc k = Some rates \<and> length rates = 3" by simp
  qed
  from analyze_spec [OF dsc ok, of bl] obtain alerts bl' where
    an: "analyze sc (map fst sc) bl = Inr (alerts, bl')
      \<and> alerts = concat (map (?f sc) (map fst sc))
      \<and> (\<forall>k. get_default bl' k [] =
            get_default bl k [] @
            (if k \<in> set (map fst sc)
             then (case first_new_tier (the (map_of sc k)) (get_default bl k []) of
                     None \<Rightarrow> []
                   | Some i \<Rightarrow> [i])
             else []))"
    by (elim exE) (rule that)
  note run = an [THEN conjunct1] and al = an [THEN conjunct2, THEN conjunct1]
    and bl = an [THEN conjunct2, THEN conjunct2, rule_format]
  have cyc: "analyzer_cycle T tbl bl = Inr (alerts, bl')"
    using snap run by (simp add: analyzer_cycle_def)
  have own: "\<forall>k\<in>set (map fst sc). \<forall>a\<in>set (?f sc k). alert_ip a = k"
    by (auto simp: alert_of_def split: option.splits)
  have per: "\<forall>S. filter (\<lambda>a. alert_ip a = S) alerts =
           (case first_new_tier (?wc S) (get_default bl S []) of
              None \<Rightarrow> []
            | Some i \<Rightarrow> [alert_of S (?wc S) i])"
  proof
    fix S
    have "filter (\<lambda>a. alert_ip a = S) alerts = (if S \<in> set (map fst sc) then ?f sc S else [])"
      unfolding al by (rule filter_concat_map_key [OF dsc own])
    also have "\<dots> = (case first_new_tier (?wc S) (get_default bl S []) of
              None \<Rightarrow> []
            | Some i \<Rightarrow> [alert_of S (?wc S) i])"
    proof (cases "S \<in> set (map fst sc)")
      case True
      from present [OF True] have t: "the (map_of sc S) = ?wc S" by simp
      show ?thesis by (simp only: t True if_True)
    next
      case False
      from absent [OF False] False show ?thesis by (simp add: first_new_tier_zero)
    qed
    finally show "filter (\<lambda>a. alert_ip a = S) alerts =
           (case first_new_tier (?wc S) (get_default bl S []) of
              None \<Rightarrow> []
            | Some i \<Rightarrow> [alert_of S (?wc S) i])" .
  qed
  have lst: "\<forall>S. get_default bl' S [] =
           get_default bl S [] @
           (case first_new_tier (?wc S) (get_default bl S []) of
              None \<Rightarrow> []
            | Some i \<Rightarrow> [i])"
  proof
    fix S
    show "get_default bl' S [] =
           get_default bl S [] @
           (case first_new_tier (?wc S) (get_default bl S []) of
              None \<Rightarrow> []
            | Some i \<Rightarrow> [i])"
    proof (cases "S \<in> set (map fst sc)")
      case True
      from present [OF True] have t: "the (map_of sc S) = ?wc S" by simp
      from bl [of S] show ?thesis by (simp only: t True if_True)
    next
      case False
      from absent [OF False] False bl [of S] show ?thesis by (simp add: first_new_tier_zero)
    qed
  qed
  from cyc per lst show ?thesis by blast
qed

lemma counts_nth:
  "i < 3 \<Longrightarrow>
   [flows_younger T tbl S 1, flows_younger T tbl S 60, flows_younger T tbl S 300] ! i =
   flows_younger T tbl S (ages ! i)"
proof -
  assume "i < 3"
  then have "i = 0 \<or> i = 1 \<or> i = 2" by arith
  then show ?thesis by (elim disjE) (simp_all add: ages_def)
qed

lemma alert_in_cycle:
  assumes "\<forall>S. filter (\<lambda>a. alert_ip a = S) alerts =
             (case first_new_tier (wc S) (L S) of None \<Rightarrow> [] | Some i \<Rightarrow> [alert_of S (wc S) i])"
    and "a \<in> set alerts"
  shows "\<exists>i. first_new_tier (wc (alert_ip a)) (L (alert_ip a)) = Some i
           \<and> a = alert_of (alert_ip a) (wc (alert_ip a)) i"
proof -
  from assms(2) have "a \<in> set (filter (\<lambda>b. alert_ip b = alert_ip a) alerts)" by simp
  with assms(1) have m: "a \<in> set (case first_new_tier (wc (alert_ip a)) (L (alert_ip a)) of
       None \<Rightarrow> [] | Some i \<Rightarrow> [alert_of (alert_ip a) (wc (alert_ip a)) i])" by simp
  show ?thesis
  proof (cases "first_new_tier (wc (alert_ip a)) (L (alert_ip a))")
    case None
    with m show ?thesis by simp
  next
    case (Some i)
    with m show ?thesis by simp
  qed
qed

lemma at_most_one_per_source:
  assumes "\<forall>S. filter (\<lambda>a. alert_ip a = S) alerts =
             (case first_new_tier (wc S) (L S) of None \<Rightarrow> [] | Some i \<Rightarrow> [alert_of S (wc S) i])"
  shows "length (filter (\<lambda>a. alert_ip a = S) alerts) \<le> 1"
  using assms [rule_format, of S] by (cases "first_new_tier (wc S) (L S)") simp_all

lemma distinct_map_filter:
  "\<forall>S. length (filter (\<lambda>a. f a = S) xs) \<le> 1 \<Longrightarrow> distinct (map f xs)"
proof (induction xs)
  case Nil
  show ?case by simp
next
  case (Cons x xs)
  have tail: "\<forall>S. length (filter (\<lambda>a. f a = S) xs) \<le> 1"
  proof
    fix S
    have "length (filter (\<lambda>a. f a = S) xs) \<le> length (filter (\<lambda>a. f a = S) (x # xs))" by simp
    also have "\<dots> \<le> 1" using Cons.prems by blast
    finally show "length (filter (\<lambda>a. f a = S) xs) \<le> 1" .
  qed
  from Cons.prems have "length (filter (\<lambda>a. f a = f x) (x # xs)) \<le> 1" by blast
  then have "filter (\<lambda>a. f a = f x) xs = []" by simp
  then have "f x \<notin> f ` set xs" by (auto simp: filter_empty_conv)
  with Cons.IH [OF tail] show ?case by simp
qed

lemma distinct_map_pair:
  "distinct (map f xs) \<Longrightarrow> distinct (map (\<lambda>a. (f a, g a)) xs)"
proof (induction xs)
  case Nil
  show ?case by simp
next
  case (Cons x xs)
  then show ?case by (auto simp: image_iff)
qed

text \<open>
  C10. The comparison with the threshold is strict. In every cycle, each alert carries a
  count strictly greater than the threshold of its tier, and a source whose count at tier
  \<open>i\<close> equals (or is below) \<open>max_connections ! i\<close> gets no alert at tier \<open>i\<close>.
\<close>

theorem threshold_comparison_strict:
  assumes "distinct (map fst first_contacts)"
  shows "\<exists>alerts blacklist'.
           analyzer_cycle current_time first_contacts blacklist = Inr (alerts, blacklist')
         \<and> (\<forall>a\<in>set alerts.
               alert_tier a < 3
             \<and> reason_count a =
                 flows_younger current_time first_contacts (alert_ip a) (ages ! alert_tier a)
             \<and> reason_max a = max_connections ! alert_tier a
             \<and> reason_count a > reason_max a)
         \<and> (\<forall>source i. i < 3 \<and>
               flows_younger current_time first_contacts source (ages ! i) \<le> max_connections ! i \<longrightarrow>
               \<not> (\<exists>a\<in>set alerts. alert_ip a = source \<and> alert_tier a = i))"
proof -
  let ?wc = "\<lambda>S. [flows_younger current_time first_contacts S 1,
                    flows_younger current_time first_contacts S 60,
                    flows_younger current_time first_contacts S 300]"
  from cycle_spec [OF assms, of current_time blacklist] obtain alerts bl' where
    c: "analyzer_cycle current_time first_contacts blacklist = Inr (alerts, bl')
     \<and> (\<forall>S. filter (\<lambda>a. alert_ip a = S) alerts =
           (case first_new_tier (?wc S) (get_default blacklist S []) of
              None \<Rightarrow> []
            | Some i \<Rightarrow> [alert_of S (?wc S) i]))
     \<and> (\<forall>S. get_default bl' S [] =
           get_default blacklist S [] @
           (case first_new_tier (?wc S) (get_default blacklist S []) of
              None \<Rightarrow> []
            | Some i \<Rightarrow> [i]))"
    by (elim exE) (rule that)
  note run = c [THEN conjunct1] and per = c [THEN conjunct2, THEN conjunct1]
  have each: "\<forall>a\<in>set alerts.
               alert_tier a < 3
             \<and> reason_count a =
                 flows_younger current_time first_contacts (alert_ip a) (ages ! alert_tier a)
             \<and> reason_max a = max_connections ! alert_tier a
             \<and> reason_count a > reason_max a"
  proof
    fix a assume "a \<in> set alerts"
    from alert_in_cycle [of alerts ?wc "\<lambda>S. get_default blacklist S []", OF per this]
    obtain i where i: "first_new_tier (?wc (alert_ip a)) (get_default blacklist (alert_ip a) []) = Some i"
      and a: "a = alert_of (alert_ip a) (?wc (alert_ip a)) i" by blast
    from first_new_tier_Some [OF i] have i3: "i < 3"
      and gt: "?wc (alert_ip a) ! i > max_connections ! i" by simp_all
    have t: "alert_tier a = i" and rc: "reason_count a = ?wc (alert_ip a) ! i"
      and rm: "reason_max a = max_connections ! i"
      by (subst a, simp add: alert_of_def)+
    from counts_nth [OF i3, of current_time first_contacts "alert_ip a"] rc
    have "reason_count a = flows_younger current_time first_contacts (alert_ip a) (ages ! i)"
      by simp
    with t rm rc gt i3
    show "alert_tier a < 3
             \<and> reason_count a =
                 flows_younger current_time first_contacts (alert_ip a) (ages ! alert_tier a)
             \<and> reason_max a = max_connections ! alert_tier a
             \<and> reason_count a > reason_max a"
      by simp
  qed
  have none: "\<forall>source i. i < 3 \<and>
               flows_younger current_time first_contacts source (ages ! i) \<le> max_connections ! i \<longrightarrow>
               \<not> (\<exists>a\<in>set alerts. alert_ip a = source \<and> alert_tier a = i)"
  proof (intro allI impI notI)
    fix source i
    assume le: "i < 3 \<and>
       flows_younger current_time first_contacts source (ages ! i) \<le> max_connections ! i"
    assume "\<exists>a\<in>set alerts. alert_ip a = source \<and> alert_tier a = i"
    then obtain a where a: "a \<in> set alerts" and s: "alert_ip a = source" and t: "alert_tier a = i"
      by blast
    from each a have "reason_count a =
          flows_younger current_time first_contacts (alert_ip a) (ages ! alert_tier a)"
      and "reason_max a = max_connections ! alert_tier a"
      and "reason_count a > reason_max a" by blast+
    with s t le show False by simp
  qed
  from run each none show ?thesis by blast
qed

theorem threshold_comparison_strict_witness:
  "distinct (map fst [((''10.0.0.5'', ''10.0.0.9'', 1::nat), 99.5::real),
                      ((''10.0.0.5'', ''10.0.0.9'', 2), 99.5),
                      ((''10.0.0.5'', ''10.0.0.9'', 3), 99.5),
                      ((''10.0.0.5'', ''10.0.0.9'', 4), 99.5),
                      ((''10.0.0.5'', ''10.0.0.9'', 5), 99.5)])
   \<and> flows_younger 100 [((''10.0.0.5'', ''10.0.0.9'', 1), 99.5),
                         ((''10.0.0.5'', ''10.0.0.9'', 2), 99.5),
                         ((''10.0.0.5'', ''10.0.0.9'', 3), 99.5),
                         ((''10.0.0.5'', ''10.0.0.9'', 4), 99.5),
                         ((''10.0.0.5'', ''10.0.0.9'', 5), 99.5)] ''10.0.0.5'' (ages ! 0)
       = max_connections ! 0
   \<and> analyzer_cycle 100 [((''10.0.0.5'', ''10.0.0.9'', 1), 99.5),
                          ((''10.0.0.5'', ''10.0.0.9'', 2), 99.5),
                          ((''10.0.0.5'', ''10.0.0.9'', 3), 99.5),
                          ((''10.0.0.5'', ''10.0.0.9'', 4), 99.5),
                          ((''10.0.0.5'', ''10.0.0.9'', 5), 99.5)] [] = Inr ([], [])"
  using threshold_comparison_strict
    [of "[((''10.0.0.5'', ''10.0.0.9'', 1), 99.5),
          ((''10.0.0.5'', ''10.0.0.9'', 2), 99.5),
          ((''10.0.0.5'', ''10.0.0.9'', 3), 99.5),
          ((''10.0.0.5'', ''10.0.0.9'', 4), 99.5),
          ((''10.0.0.5'', ''10.0.0.9'', 5), 99.5)]" 100 "[]"]
  by (simp add: analyzer_cycle_def take_snapshot_def range_ages ages_def count_flow_def
        get_default_def range_max_connections max_connections_def flows_younger_def)




text \<open>
  C3 fails on the code. With six flows of one source aged half a second, one aged 30
  seconds and one aged 200 seconds, the vector is \<open>[6, 7, 8]\<close> and the 5-minute count is
  8. The alert reports 8 / 300 as the per-second average, but 7 / 5 (the 1-minute count
  over 5) as the per-minute average and 6 (the 1-second count) as the 5-minute count.
\<close>

theorem alert_rates_at_failing_input:
  "analyzer_cycle 1000 [((''10.0.0.5'', ''10.0.0.9'', 1), 999.5),
        ((''10.0.0.5'', ''10.0.0.9'', 2), 999.5),
        ((''10.0.0.5'', ''10.0.0.9'', 3), 999.5),
        ((''10.0.0.5'', ''10.0.0.9'', 4), 999.5),
        ((''10.0.0.5'', ''10.0.0.9'', 5), 999.5),
        ((''10.0.0.5'', ''10.0.0.9'', 6), 999.5),
        ((''10.0.0.5'', ''10.0.0.9'', 7), 970),
        ((''10.0.0.5'', ''10.0.0.9'', 8), 800)] [] =
     Inr ([\<lparr> alert_ip = ''10.0.0.5'', alert_tier = 0, reason_age = 1, reason_count = 6,
             reason_max = 5, fanout_per_1s = 8 / 300, fanout_per_1m = 7 / 5,
             fanout_per_5m = 6 \<rparr>],
          [(''10.0.0.5'', [0])])
   \<and> flows_younger 1000 [((''10.0.0.5'', ''10.0.0.9'', 1), 999.5),
        ((''10.0.0.5'', ''10.0.0.9'', 2), 999.5),
        ((''10.0.0.5'', ''10.0.0.9'', 3), 999.5),
        ((''10.0.0.5'', ''10.0.0.9'', 4), 999.5),
        ((''10.0.0.5'', ''10.0.0.9'', 5), 999.5),
        ((''10.0.0.5'', ''10.0.0.9'', 6), 999.5),
        ((''10.0.0.5'', ''10.0.0.9'', 7), 970),
        ((''10.0.0.5'', ''10.0.0.9'', 8), 800)] ''10.0.0.5'' 300 = 8
   \<and> flows_younger 1000 [((''10.0.0.5'', ''10.0.0.9'', 1), 999.5),
        ((''10.0.0.5'', ''10.0.0.9'', 2), 999.5),
        ((''10.0.0.5'', ''10.0.0.9'', 3), 999.5),
        ((''10.0.0.5'', ''10.0.0.9'', 4), 999.5),
        ((''10.0.0.5'', ''10.0.0.9'', 5), 999.5),
        ((''10.0.0.5'', ''10.0.0.9'', 6), 999.5),
        ((''10.0.0.5'', ''10.0.0.9'', 7), 970),
        ((''10.0.0.5'', ''10.0.0.9'', 8), 800)] ''10.0.0.5'' 60 = 7
   \<and> flows_younger 1000 [((''10.0.0.5'', ''10.0.0.9'', 1), 999.5),
        ((''10.0.0.5'', ''10.0.0.9'', 2), 999.5),
        ((''10.0.0.5'', ''10.0.0.9'', 3), 999.5),
        ((''10.0.0.5'', ''10.0.0.9'', 4), 999.5),
        ((''10.0.0.5'', ''10.0.0.9'', 5), 999.5),
        ((''10.0.0.5'', ''10.0.0.9'', 6), 999.5),
        ((''10.0.0.5'', ''10.0.0.9'', 7), 970),
        ((''10.0.0.5'', ''10.0.0.9'', 8), 800)] ''10.0.0.5'' 1 = 6"
  by (simp add: analyzer_cycle_def take_snapshot_def range_ages ages_def count_flow_def
        get_default_def range_max_connections max_connections_def flows_younger_def report_def
        alert_of_def)

lemma cycle_facts:
  assumes "distinct (map fst tbl)"
  shows "\<exists>alerts bl'. analyzer_cycle T tbl bl = Inr (alerts, bl')
     \<and> distinct (map alert_ip alerts)
     \<and> (\<forall>a\<in>set alerts. alert_tier a \<notin> set (get_default bl (alert_ip a) [])
                        \<and> alert_tier a \<in> set (get_default bl' (alert_ip a) []))
     \<and> (\<forall>S. set (get_default bl S []) \<subseteq> set (get_default bl' S []))"
proof -
  let ?wc = "\<lambda>S. [flows_younger T tbl S 1, flows_younger T tbl S 60, flows_younger T tbl S 300]"
  from cycle_spec [OF assms, of T bl] obtain alerts bl' where
    c: "analyzer_cycle T tbl bl = Inr (alerts, bl')
     \<and> (\<forall>S. filter (\<lambda>a. alert_ip a = S) alerts =
           (case first_new_tier (?wc S) (get_default bl S []) of
              None \<Rightarrow> []
            | Some i \<Rightarrow> [alert_of S (?wc S) i]))
     \<and> (\<forall>S. get_default bl' S [] =
           get_default bl S [] @
           (case first_new_tier (?wc S) (get_default bl S []) of
              None \<Rightarrow> []
            | Some i \<Rightarrow> [i]))"
    by (elim exE) (rule that)
  note run = c [THEN conjunct1] and per = c [THEN conjunct2, THEN conjunct1]
    and lst = c [THEN conjunct2, THEN conjunct2, rule_format]
  have "\<forall>S. length (filter (\<lambda>a. alert_ip a = S) alerts) \<le> 1"
    using at_most_one_per_source [of alerts ?wc "\<lambda>S. get_default bl S []", OF per] by blast
  then have d: "distinct (map alert_ip alerts)" by (rule distinct_map_filter)
  have each: "\<forall>a\<in>set alerts. alert_tier a \<notin> set (get_default bl (alert_ip a) [])
                        \<and> alert_tier a \<in> set (get_default bl' (alert_ip a) [])"
  proof
    fix a assume "a \<in> set alerts"
    from alert_in_cycle [of alerts ?wc "\<lambda>S. get_default bl S []", OF per this]
    obtain i where i: "first_new_tier (?wc (alert_ip a)) (get_default bl (alert_ip a) []) = Some i"
      and a: "a = alert_of (alert_ip a) (?wc (alert_ip a)) i" by blast
    have t: "alert_tier a = i" by (subst a) (simp add: alert_of_def)
    from first_new_tier_Some [OF i] have "i \<notin> set (get_default bl (alert_ip a) [])" by simp
    moreover from lst [of "alert_ip a"] i have "i \<in> set (get_default bl' (alert_ip a) [])"
      by simp
    ultimately show "alert_tier a \<notin> set (get_default bl (alert_ip a) [])
                        \<and> alert_tier a \<in> set (get_default bl' (alert_ip a) [])"
      using t by simp
  qed
  have grow: "\<forall>S. set (get_default bl S []) \<subseteq> set (get_default bl' S [])"
  proof
    fix S
    from lst [of S] show "set (get_default bl S []) \<subseteq> set (get_default bl' S [])"
      by (cases "first_new_tier (?wc S) (get_default bl S [])") auto
  qed
  from run d each grow show ?thesis by blast
qed

lemma loop_spec:
  assumes "\<forall>obs\<in>set observations. distinct (map fst (snd obs))"
  shows "\<exists>alertss bl'. analyzer_loop bl observations = Inr (alertss, bl')
     \<and> length alertss = length observations
     \<and> distinct (map (\<lambda>a. (alert_ip a, alert_tier a)) (concat alertss))
     \<and> (\<forall>a\<in>set (concat alertss). alert_tier a \<notin> set (get_default bl (alert_ip a) []))
     \<and> (\<forall>alerts\<in>set alertss. distinct (map alert_ip alerts))"
  using assms
proof (induction observations arbitrary: bl)
  case Nil
  show ?case by simp
next
  case (Cons obs observations)
  obtain T tbl where obs: "obs = (T, tbl)" by (cases obs)
  from Cons.prems obs have dt: "distinct (map fst tbl)"
    and rest: "\<forall>obs\<in>set observations. distinct (map fst (snd obs))" by simp_all
  from cycle_facts [OF dt, of T bl] obtain alerts bl1 where
    c: "analyzer_cycle T tbl bl = Inr (alerts, bl1)
     \<and> distinct (map alert_ip alerts)
     \<and> (\<forall>a\<in>set alerts. alert_tier a \<notin> set (get_default bl (alert_ip a) [])
                        \<and> alert_tier a \<in> set (get_default bl1 (alert_ip a) []))
     \<and> (\<forall>S. set (get_default bl S []) \<subseteq> set (get_default bl1 S []))"
    by (elim exE) (rule that)
  note run1 = c [THEN conjunct1] and d1 = c [THEN conjunct2, THEN conjunct1]
    and each1 = c [THEN conjunct2, THEN conjunct2, THEN conjunct1]
    and grow1 = c [THEN conjunct2, THEN conjunct2, THEN conjunct2]
  from Cons.IH [OF rest, of bl1] obtain later bl2 where
    ih: "analyzer_loop bl1 observations = Inr (later, bl2)
     \<and> length later = length observations
     \<and> distinct (map (\<lambda>a. (alert_ip a, alert_tier a)) (concat later))
     \<and> (\<forall>a\<in>set (concat later). alert_tier a \<notin> set (get_default bl1 (alert_ip a) []))
     \<and> (\<forall>alerts\<in>set later. distinct (map alert_ip alerts))"
    by (elim exE) (rule that)
  note run2 = ih [THEN conjunct1] and len2 = ih [THEN conjunct2, THEN conjunct1]
    and d2 = ih [THEN conjunct2, THEN conjunct2, THEN conjunct1]
    and fresh2 = ih [THEN conjunct2, THEN conjunct2, THEN conjunct2, THEN conjunct1]
    and one2 = ih [THEN conjunct2, THEN conjunct2, THEN conjunct2, THEN conjunct2]
  have run: "analyzer_loop bl (obs # observations) = Inr (alerts # later, bl2)"
    using obs run1 run2 by simp
  have len: "length (alerts # later) = length (obs # observations)" using len2 by simp
  have dp1: "distinct (map (\<lambda>a. (alert_ip a, alert_tier a)) alerts)"
    using d1 by (rule distinct_map_pair)
  have disj: "set (map (\<lambda>a. (alert_ip a, alert_tier a)) alerts) \<inter>
              set (map (\<lambda>a. (alert_ip a, alert_tier a)) (concat later)) = {}"
  proof (rule ccontr)
    assume "set (map (\<lambda>a. (alert_ip a, alert_tier a)) alerts) \<inter>
              set (map (\<lambda>a. (alert_ip a, alert_tier a)) (concat later)) \<noteq> {}"
    then obtain p where p1: "p \<in> set (map (\<lambda>a. (alert_ip a, alert_tier a)) alerts)"
      and p2: "p \<in> set (map (\<lambda>a. (alert_ip a, alert_tier a)) (concat later))" by blast
    from p1 obtain a where a: "a \<in> set alerts" and pa: "p = (alert_ip a, alert_tier a)"
      by (auto simp: image_iff)
    from p2 obtain b where b: "b \<in> set (concat later)" and pb: "p = (alert_ip b, alert_tier b)"
      by (auto simp: image_iff)
    from pa pb have same: "alert_ip b = alert_ip a" "alert_tier b = alert_tier a" by simp_all
    from each1 a have "alert_tier a \<in> set (get_default bl1 (alert_ip a) [])" by blast
    moreover from fresh2 b have "alert_tier b \<notin> set (get_default bl1 (alert_ip b) [])" by blast
    ultimately show False using same by simp
  qed
  have dist: "distinct (map (\<lambda>a. (alert_ip a, alert_tier a)) (concat (alerts # later)))"
    using dp1 d2 disj by simp
  have fresh: "\<forall>a\<in>set (concat (alerts # later)).
                 alert_tier a \<notin> set (get_default bl (alert_ip a) [])"
  proof
    fix a assume "a \<in> set (concat (alerts # later))"
    then consider "a \<in> set alerts" | "a \<in> set (concat later)" by auto
    then show "alert_tier a \<notin> set (get_default bl (alert_ip a) [])"
    proof cases
      case 1
      with each1 show ?thesis by blast
    next
      case 2
      with fresh2 have "alert_tier a \<notin> set (get_default bl1 (alert_ip a) [])" by blast
      with grow1 show ?thesis by blast
    qed
  qed
  have one: "\<forall>x\<in>set (alerts # later). distinct (map alert_ip x)"
    using d1 one2 by simp
  from run len dist fresh one show ?case by blast
qed


lemma loop_prefix:
  assumes "analyzer_loop bl obs = Inr (alertss, bl')" and "n < length obs"
  shows "\<exists>bl_n bl_next.
           analyzer_loop bl (take n obs) = Inr (take n alertss, bl_n)
         \<and> analyzer_cycle (fst (obs ! n)) (snd (obs ! n)) bl_n = Inr (alertss ! n, bl_next)"
  using assms
proof (induction obs arbitrary: bl n alertss)
  case Nil
  then show ?case by simp
next
  case (Cons ob obs)
  obtain T tbl where ob: "ob = (T, tbl)" by (cases ob)
  from Cons.prems(1) ob obtain alerts bl1 later where
    c: "analyzer_cycle T tbl bl = Inr (alerts, bl1)"
    and r: "analyzer_loop bl1 obs = Inr (later, bl')"
    and a: "alertss = alerts # later"
    by (auto split: sum.splits prod.splits)
  show ?case
  proof (cases n)
    case 0
    with c ob a show ?thesis by simp
  next
    case (Suc m)
    with Cons.prems(2) have m: "m < length obs" by simp
    from Cons.IH [OF r m] obtain bl_n bl_next where
      p: "analyzer_loop bl1 (take m obs) = Inr (take m later, bl_n)"
      and q: "analyzer_cycle (fst (obs ! m)) (snd (obs ! m)) bl_n = Inr (later ! m, bl_next)"
      by blast
    from p c ob have "analyzer_loop bl (take n (ob # obs)) = Inr (take n alertss, bl_n)"
      using Suc a by simp
    moreover from q have "analyzer_cycle (fst ((ob # obs) ! n)) (snd ((ob # obs) ! n)) bl_n =
        Inr (alertss ! n, bl_next)"
      using Suc a by simp
    ultimately show ?thesis by blast
  qed
qed

lemma cycle_listed:
  assumes "\<forall>S. filter (\<lambda>a. alert_ip a = S) alerts =
             (case first_new_tier (wc S) (L S) of None \<Rightarrow> [] | Some i \<Rightarrow> [alert_of S (wc S) i])"
  shows "(case first_new_tier (wc S) (L S) of None \<Rightarrow> [] | Some i \<Rightarrow> [i]) =
         map alert_tier (filter (\<lambda>a. alert_ip a = S) alerts)"
  using assms [rule_format, of S]
  by (cases "first_new_tier (wc S) (L S)") (simp_all add: alert_of_def)

lemma loop_char:
  assumes "\<forall>obs\<in>set observations. distinct (map fst (snd obs))"
  shows "\<exists>alertss bl'. analyzer_loop bl observations = Inr (alertss, bl')
     \<and> length alertss = length observations
     \<and> (\<forall>n<length observations. \<forall>S.
           filter (\<lambda>a. alert_ip a = S) (alertss ! n) =
           (case first_new_tier
                   [flows_younger (fst (observations ! n)) (snd (observations ! n)) S 1,
                    flows_younger (fst (observations ! n)) (snd (observations ! n)) S 60,
                    flows_younger (fst (observations ! n)) (snd (observations ! n)) S 300]
                   (get_default bl S [] @
                    map alert_tier (filter (\<lambda>a. alert_ip a = S) (concat (take n alertss)))) of
              None \<Rightarrow> []
            | Some i \<Rightarrow>
                [alert_of S
                   [flows_younger (fst (observations ! n)) (snd (observations ! n)) S 1,
                    flows_younger (fst (observations ! n)) (snd (observations ! n)) S 60,
                    flows_younger (fst (observations ! n)) (snd (observations ! n)) S 300] i]))
     \<and> (\<forall>S. get_default bl' S [] =
           get_default bl S [] @
           map alert_tier (filter (\<lambda>a. alert_ip a = S) (concat alertss)))"
  using assms
proof (induction observations arbitrary: bl)
  case Nil
  show ?case by simp
next
  case (Cons ob observations)
  obtain T tbl where ob: "ob = (T, tbl)" by (cases ob)
  let ?wc = "\<lambda>T tbl S. [flows_younger T tbl S 1, flows_younger T tbl S 60, flows_younger T tbl S 300]"
  from Cons.prems ob have dt: "distinct (map fst tbl)"
    and rest: "\<forall>obs\<in>set observations. distinct (map fst (snd obs))" by simp_all
  from cycle_spec [OF dt, of T bl] obtain alerts bl1 where
    c: "analyzer_cycle T tbl bl = Inr (alerts, bl1)
     \<and> (\<forall>S. filter (\<lambda>a. alert_ip a = S) alerts =
           (case first_new_tier (?wc T tbl S) (get_default bl S []) of
              None \<Rightarrow> []
            | Some i \<Rightarrow> [alert_of S (?wc T tbl S) i]))
     \<and> (\<forall>S. get_default bl1 S [] =
           get_default bl S [] @
           (case first_new_tier (?wc T tbl S) (get_default bl S []) of
              None \<Rightarrow> []
            | Some i \<Rightarrow> [i]))"
    by (elim exE) (rule that)
  note run1 = c [THEN conjunct1] and per1 = c [THEN conjunct2, THEN conjunct1]
    and lst1 = c [THEN conjunct2, THEN conjunct2, rule_format]
  have bl1: "\<And>S. get_default bl1 S [] =
      get_default bl S [] @ map alert_tier (filter (\<lambda>a. alert_ip a = S) alerts)"
  proof -
    fix S
    from cycle_listed [of alerts "?wc T tbl" "\<lambda>S. get_default bl S []", OF per1, of S] lst1 [of S]
    show "get_default bl1 S [] =
      get_default bl S [] @ map alert_tier (filter (\<lambda>a. alert_ip a = S) alerts)"
      by simp
  qed
  from Cons.IH [OF rest, of bl1] obtain later bl2 where
    ih: "analyzer_loop bl1 observations = Inr (later, bl2)
     \<and> length later = length observations
     \<and> (\<forall>n<length observations. \<forall>S.
           filter (\<lambda>a. alert_ip a = S) (later ! n) =
           (case first_new_tier
                   (?wc (fst (observations ! n)) (snd (observations ! n)) S)
                   (get_default bl1 S [] @
                    map alert_tier (filter (\<lambda>a. alert_ip a = S) (concat (take n later)))) of
              None \<Rightarrow> []
            | Some i \<Rightarrow>
                [alert_of S (?wc (fst (observations ! n)) (snd (observations ! n)) S) i]))
     \<and> (\<forall>S. get_default bl2 S [] =
           get_default bl1 S [] @
           map alert_tier (filter (\<lambda>a. alert_ip a = S) (concat later)))"
    by (elim exE) (rule that)
  note run2 = ih [THEN conjunct1] and len2 = ih [THEN conjunct2, THEN conjunct1]
    and per2 = ih [THEN conjunct2, THEN conjunct2, THEN conjunct1, rule_format]
    and lst2 = ih [THEN conjunct2, THEN conjunct2, THEN conjunct2, rule_format]
  have run: "analyzer_loop bl (ob # observations) = Inr (alerts # later, bl2)"
    using ob run1 run2 by simp
  have len: "length (alerts # later) = length (ob # observations)" using len2 by simp
  have per: "\<forall>n<length (ob # observations). \<forall>S.
           filter (\<lambda>a. alert_ip a = S) ((alerts # later) ! n) =
           (case first_new_tier
                   (?wc (fst ((ob # observations) ! n)) (snd ((ob # observations) ! n)) S)
                   (get_default bl S [] @
                    map alert_tier
                      (filter (\<lambda>a. alert_ip a = S) (concat (take n (alerts # later))))) of
              None \<Rightarrow> []
            | Some i \<Rightarrow>
                [alert_of S
                   (?wc (fst ((ob # observations) ! n)) (snd ((ob # observations) ! n)) S) i])"
  proof (intro allI impI)
    fix n S assume n: "n < length (ob # observations)"
    show "filter (\<lambda>a. alert_ip a = S) ((alerts # later) ! n) =
           (case first_new_tier
                   (?wc (fst ((ob # observations) ! n)) (snd ((ob # observations) ! n)) S)
                   (get_default bl S [] @
                    map alert_tier
                      (filter (\<lambda>a. alert_ip a = S) (concat (take n (alerts # later))))) of
              None \<Rightarrow> []
            | Some i \<Rightarrow>
                [alert_of S
                   (?wc (fst ((ob # observations) ! n)) (snd ((ob # observations) ! n)) S) i])"
    proof (cases n)
      case 0
      then have e: "(alerts # later) ! n = alerts" "take n (alerts # later) = []"
        "fst ((ob # observations) ! n) = T" "snd ((ob # observations) ! n) = tbl"
        using ob by simp_all
      show ?thesis unfolding e using per1 [rule_format, of S] by simp
    next
      case (Suc m)
      with n have m: "m < length observations" by simp
      have "get_default bl S [] @
              map alert_tier (filter (\<lambda>a. alert_ip a = S) (concat (take n (alerts # later)))) =
            get_default bl1 S [] @
              map alert_tier (filter (\<lambda>a. alert_ip a = S) (concat (take m later)))"
        using Suc bl1 [of S] by simp
      moreover have e: "(alerts # later) ! n = later ! m"
        "fst ((ob # observations) ! n) = fst (observations ! m)"
        "snd ((ob # observations) ! n) = snd (observations ! m)"
        using Suc by simp_all
      ultimately show ?thesis unfolding e using per2 [OF m, of S] by simp
    qed
  qed
  have lst: "\<forall>S. get_default bl2 S [] =
           get_default bl S [] @
           map alert_tier (filter (\<lambda>a. alert_ip a = S) (concat (alerts # later)))"
    using lst2 bl1 by simp
  from run len per lst show ?case by blast
qed

lemma tier_choice:
  assumes "filter (\<lambda>a. alert_ip a = S) alerts =
             (case first_new_tier [flows_younger T tbl S 1, flows_younger T tbl S 60,
                                   flows_younger T tbl S 300] L of
                None \<Rightarrow> []
              | Some i \<Rightarrow> [alert_of S [flows_younger T tbl S 1, flows_younger T tbl S 60,
                                       flows_younger T tbl S 300] i])"
  shows "length (filter (\<lambda>a. alert_ip a = S) alerts) \<le> 1
       \<and> (\<forall>j. j < 3 \<and> flows_younger T tbl S (ages ! j) > max_connections ! j \<and> j \<notin> set L \<longrightarrow>
             (\<exists>i a. i \<le> j
                \<and> filter (\<lambda>a. alert_ip a = S) alerts = [a]
                \<and> alert_ip a = S \<and> alert_tier a = i
                \<and> flows_younger T tbl S (ages ! i) > max_connections ! i
                \<and> i \<notin> set L
                \<and> (\<forall>k<i. \<not> (flows_younger T tbl S (ages ! k) > max_connections ! k
                               \<and> k \<notin> set L))))
       \<and> ((\<forall>j<3. \<not> (flows_younger T tbl S (ages ! j) > max_connections ! j \<and> j \<notin> set L)) \<longrightarrow>
             filter (\<lambda>a. alert_ip a = S) alerts = [])"
proof -
  let ?wc = "[flows_younger T tbl S 1, flows_younger T tbl S 60, flows_younger T tbl S 300]"
  let ?ex = "\<lambda>j. flows_younger T tbl S (ages ! j) > max_connections ! j \<and> j \<notin> set L"
  have ex: "\<And>j. j < 3 \<Longrightarrow> (?wc ! j > max_connections ! j \<and> j \<notin> set L) = ?ex j"
    by (simp only: counts_nth)
  have one: "length (filter (\<lambda>a. alert_ip a = S) alerts) \<le> 1"
    using assms by (cases "first_new_tier ?wc L") simp_all
  have some: "\<forall>j. j < 3 \<and> ?ex j \<longrightarrow>
             (\<exists>i a. i \<le> j
                \<and> filter (\<lambda>a. alert_ip a = S) alerts = [a]
                \<and> alert_ip a = S \<and> alert_tier a = i
                \<and> flows_younger T tbl S (ages ! i) > max_connections ! i
                \<and> i \<notin> set L
                \<and> (\<forall>k<i. \<not> ?ex k))"
  proof (intro allI impI)
    fix j assume j: "j < 3 \<and> ?ex j"
    then have j3: "j < 3" and exj: "?ex j" by simp_all
    from exj ex [OF j3] have wj: "?wc ! j > max_connections ! j \<and> j \<notin> set L" by simp
    have "first_new_tier ?wc L \<noteq> None"
    proof
      assume "first_new_tier ?wc L = None"
      from first_new_tier_None [OF this] j3 wj show False by blast
    qed
    then obtain i where i: "first_new_tier ?wc L = Some i" by auto
    from first_new_tier_Some [OF i] have i3: "i < 3"
      and wi: "?wc ! i > max_connections ! i \<and> i \<notin> set L"
      and least: "\<forall>k<i. \<not> (?wc ! k > max_connections ! k \<and> k \<notin> set L)"
      by simp_all
    have ij: "i \<le> j"
    proof (rule ccontr)
      assume "\<not> i \<le> j"
      then have "j < i" by simp
      with least wj show False by blast
    qed
    from wi ex [OF i3] have exi: "?ex i" by simp
    have lk: "\<forall>k<i. \<not> ?ex k"
    proof (intro allI impI)
      fix k assume k: "k < i"
      with i3 have k3: "k < 3" by simp
      from least k have "\<not> (?wc ! k > max_connections ! k \<and> k \<notin> set L)" by blast
      with ex [OF k3] show "\<not> ?ex k" by simp
    qed
    from assms i have f: "filter (\<lambda>a. alert_ip a = S) alerts = [alert_of S ?wc i]" by simp
    have ip: "alert_ip (alert_of S ?wc i) = S" and ti: "alert_tier (alert_of S ?wc i) = i"
      by (simp_all add: alert_of_def)
    from ij f ip ti exi lk
    show "\<exists>i a. i \<le> j
                \<and> filter (\<lambda>a. alert_ip a = S) alerts = [a]
                \<and> alert_ip a = S \<and> alert_tier a = i
                \<and> flows_younger T tbl S (ages ! i) > max_connections ! i
                \<and> i \<notin> set L
                \<and> (\<forall>k<i. \<not> ?ex k)"
      by (intro exI [of _ i] exI [of _ "alert_of S ?wc i"]) simp
  qed
  have none: "(\<forall>j<3. \<not> ?ex j) \<longrightarrow> filter (\<lambda>a. alert_ip a = S) alerts = []"
  proof
    assume n: "\<forall>j<3. \<not> ?ex j"
    have "first_new_tier ?wc L = None"
    proof (cases "first_new_tier ?wc L")
      case None
      then show ?thesis .
    next
      case (Some i)
      from first_new_tier_Some [OF Some] have i3: "i < 3"
        and wi: "?wc ! i > max_connections ! i \<and> i \<notin> set L" by simp_all
      from wi ex [OF i3] have "?ex i" by simp
      with n i3 show ?thesis by blast
    qed
    with assms show "filter (\<lambda>a. alert_ip a = S) alerts = []" by simp
  qed
  from one some none show ?thesis by (intro conjI)
qed

lemma run_cycle:
  assumes "\<forall>obs\<in>set observations. distinct (map fst (snd obs))"
    and "analyzer_loop [] observations = Inr (alertss, bl)"
    and "n < length observations"
  shows "\<exists>bl_n bl_next.
           analyzer_loop [] (take n observations) = Inr (take n alertss, bl_n)
         \<and> analyzer_cycle (fst (observations ! n)) (snd (observations ! n)) bl_n =
             Inr (alertss ! n, bl_next)
         \<and> (\<forall>S. get_default bl_n S [] =
               map alert_tier (filter (\<lambda>a. alert_ip a = S) (concat (take n alertss))))"
proof -
  from loop_prefix [OF assms(2,3)] obtain bl_n bl_next where
    p: "analyzer_loop [] (take n observations) = Inr (take n alertss, bl_n)"
    and c: "analyzer_cycle (fst (observations ! n)) (snd (observations ! n)) bl_n =
             Inr (alertss ! n, bl_next)" by blast
  have d: "\<forall>obs\<in>set (take n observations). distinct (map fst (snd obs))"
    using assms(1) by (meson in_set_takeD)
  from loop_char [OF d, of "[]"] obtain as' bl' where
    l: "analyzer_loop [] (take n observations) = Inr (as', bl')"
    and g: "\<forall>S. get_default bl' S [] =
           get_default [] S [] @ map alert_tier (filter (\<lambda>a. alert_ip a = S) (concat as'))"
    by blast
  from p l have "as' = take n alertss" and "bl' = bl_n" by simp_all
  with g have "\<forall>S. get_default bl_n S [] =
               map alert_tier (filter (\<lambda>a. alert_ip a = S) (concat (take n alertss)))"
    by (simp add: get_default_def)
  with p c show ?thesis by blast
qed

lemma get_default_Nil: "get_default [] k v = v"
  by (simp add: get_default_def)

lemma burst_distinct:
  "distinct ps \<Longrightarrow> distinct (map fst (map (\<lambda>p. ((a, b, p), ts)) ps))"
  by (simp add: distinct_map comp_def inj_on_def)

lemma burst_count:
  "flows_younger T (map (\<lambda>p. ((S, D, p), ts)) ps) S a =
     (if T - ts < real a then length ps else 0)"
  by (induction ps) (simp_all add: flows_younger_def)

text \<open>
  C4. A run starts with an empty blacklist and carries it from cycle to cycle: cycle \<open>n\<close>
  of a run is \<open>analyzer_cycle\<close> on the blacklist left by the first \<open>n\<close> cycles, which
  lists for each source exactly the tiers alerted for it so far. So over the whole run no
  pair of source and tier is alerted twice, and in cycle \<open>n\<close> a source gets at most one
  alert: if it exceeds some tier not alerted for it in an earlier cycle, exactly one alert,
  for the lowest such tier; otherwise none. The same holds of a single cycle with any
  blacklist: a listed tier stays listed and is not alerted again, a source exceeding an
  unlisted tier gets exactly one alert, for the lowest such tier, which is appended to its
  list, and a source exceeding no unlisted tier gets no alert and keeps its list.
\<close>

theorem alerts_deduplicated:
  assumes "\<forall>obs\<in>set observations. distinct (map fst (snd obs))"
    and "distinct (map fst first_contacts)"
  shows "(\<exists>alertss blacklist.
           analyzer_run observations = Inr (alertss, blacklist)
         \<and> length alertss = length observations
         \<and> distinct (map (\<lambda>a. (alert_ip a, alert_tier a)) (concat alertss))
         \<and> (\<forall>alerts\<in>set alertss. distinct (map alert_ip alerts))
         \<and> (\<forall>n<length observations.
             (\<exists>carried updated.
                 analyzer_run (take n observations) = Inr (take n alertss, carried)
               \<and> analyzer_cycle (fst (observations ! n)) (snd (observations ! n)) carried =
                   Inr (alertss ! n, updated)
               \<and> (\<forall>source. get_default carried source [] =
                     map alert_tier
                       (filter (\<lambda>a. alert_ip a = source) (concat (take n alertss)))))
           \<and> (\<forall>source.
                 length (filter (\<lambda>a. alert_ip a = source) (alertss ! n)) \<le> 1
               \<and> (\<forall>j. j < 3
                      \<and> flows_younger (fst (observations ! n)) (snd (observations ! n)) source (ages ! j) > max_connections ! j
                      \<and> j \<notin> set (map alert_tier (filter (\<lambda>a. alert_ip a = source) (concat (take n alertss)))) \<longrightarrow>
                     (\<exists>i a. i \<le> j
                        \<and> filter (\<lambda>a. alert_ip a = source) (alertss ! n) = [a]
                        \<and> alert_ip a = source \<and> alert_tier a = i
                        \<and> flows_younger (fst (observations ! n)) (snd (observations ! n)) source (ages ! i) > max_connections ! i
                        \<and> i \<notin> set (map alert_tier (filter (\<lambda>a. alert_ip a = source) (concat (take n alertss))))
                        \<and> (\<forall>k<i. \<not> (flows_younger (fst (observations ! n)) (snd (observations ! n)) source (ages ! k) > max_connections ! k
                                       \<and> k \<notin> set (map alert_tier (filter (\<lambda>a. alert_ip a = source) (concat (take n alertss))))))))
               \<and> ((\<forall>j<3. \<not> (flows_younger (fst (observations ! n)) (snd (observations ! n)) source (ages ! j) > max_connections ! j
                               \<and> j \<notin> set (map alert_tier (filter (\<lambda>a. alert_ip a = source) (concat (take n alertss)))))) \<longrightarrow>
                     filter (\<lambda>a. alert_ip a = source) (alertss ! n) = []))))
       \<and> (\<exists>alerts blacklist'.
           analyzer_cycle current_time first_contacts blacklist = Inr (alerts, blacklist')
         \<and> (\<forall>source. length (filter (\<lambda>a. alert_ip a = source) alerts) \<le> 1)
         \<and> (\<forall>source i. i \<in> set (get_default blacklist source []) \<longrightarrow>
               i \<in> set (get_default blacklist' source [])
             \<and> \<not> (\<exists>a\<in>set alerts. alert_ip a = source \<and> alert_tier a = i))
         \<and> (\<forall>source j. j < 3
               \<and> flows_younger current_time first_contacts source (ages ! j) > max_connections ! j
               \<and> j \<notin> set (get_default blacklist source []) \<longrightarrow>
               (\<exists>i a. i \<le> j
                 \<and> filter (\<lambda>a. alert_ip a = source) alerts = [a]
                 \<and> alert_ip a = source \<and> alert_tier a = i
                 \<and> flows_younger current_time first_contacts source (ages ! i) > max_connections ! i
                 \<and> i \<notin> set (get_default blacklist source [])
                 \<and> (\<forall>k<i. \<not> (flows_younger current_time first_contacts source (ages ! k)
                                  > max_connections ! k
                                \<and> k \<notin> set (get_default blacklist source [])))
                 \<and> get_default blacklist' source [] = get_default blacklist source [] @ [i]))
         \<and> (\<forall>source. (\<forall>j<3. \<not> (flows_younger current_time first_contacts source (ages ! j)
                                     > max_connections ! j
                                   \<and> j \<notin> set (get_default blacklist source []))) \<longrightarrow>
               filter (\<lambda>a. alert_ip a = source) alerts = []
             \<and> get_default blacklist' source [] = get_default blacklist source []))"
proof -
  let ?wc = "\<lambda>S. [flows_younger current_time first_contacts S 1,
                    flows_younger current_time first_contacts S 60,
                    flows_younger current_time first_contacts S 300]"
  let ?L = "\<lambda>S. get_default blacklist S []"
  let ?ex = "\<lambda>S j. flows_younger current_time first_contacts S (ages ! j) > max_connections ! j
                   \<and> j \<notin> set (?L S)"
  have ex: "\<And>S j. j < 3 \<Longrightarrow> (?wc S ! j > max_connections ! j \<and> j \<notin> set (?L S)) = ?ex S j"
    by (simp only: counts_nth)
  from loop_spec [OF assms(1), of "[]"] obtain alertss bl where
    l: "analyzer_loop [] observations = Inr (alertss, bl)
     \<and> length alertss = length observations
     \<and> distinct (map (\<lambda>a. (alert_ip a, alert_tier a)) (concat alertss))
     \<and> (\<forall>a\<in>set (concat alertss). alert_tier a \<notin> set (get_default [] (alert_ip a) []))
     \<and> (\<forall>alerts\<in>set alertss. distinct (map alert_ip alerts))"
    by (elim exE) (rule that)
  have runl: "analyzer_loop [] observations = Inr (alertss, bl)" by (rule l [THEN conjunct1])
  from loop_char [OF assms(1), of "[]"] obtain as2 bl2 where
    l2: "analyzer_loop [] observations = Inr (as2, bl2)
     \<and> length as2 = length observations
     \<and> (\<forall>n<length observations. \<forall>S.
           filter (\<lambda>a. alert_ip a = S) (as2 ! n) =
           (case first_new_tier
                   [flows_younger (fst (observations ! n)) (snd (observations ! n)) S 1,
                    flows_younger (fst (observations ! n)) (snd (observations ! n)) S 60,
                    flows_younger (fst (observations ! n)) (snd (observations ! n)) S 300]
                   (get_default [] S [] @
                    map alert_tier (filter (\<lambda>a. alert_ip a = S) (concat (take n as2)))) of
              None \<Rightarrow> []
            | Some i \<Rightarrow>
                [alert_of S
                   [flows_younger (fst (observations ! n)) (snd (observations ! n)) S 1,
                    flows_younger (fst (observations ! n)) (snd (observations ! n)) S 60,
                    flows_younger (fst (observations ! n)) (snd (observations ! n)) S 300] i]))
     \<and> (\<forall>S. get_default bl2 S [] =
           get_default [] S [] @
           map alert_tier (filter (\<lambda>a. alert_ip a = S) (concat as2)))"
    by (elim exE) (rule that)
  from runl l2 [THEN conjunct1] have same: "as2 = alertss" by simp
  have every: "(\<forall>n<length observations.
             (\<exists>carried updated.
                 analyzer_run (take n observations) = Inr (take n alertss, carried)
               \<and> analyzer_cycle (fst (observations ! n)) (snd (observations ! n)) carried =
                   Inr (alertss ! n, updated)
               \<and> (\<forall>source. get_default carried source [] =
                     map alert_tier
                       (filter (\<lambda>a. alert_ip a = source) (concat (take n alertss)))))
           \<and> (\<forall>source.
                 length (filter (\<lambda>a. alert_ip a = source) (alertss ! n)) \<le> 1
               \<and> (\<forall>j. j < 3
                      \<and> flows_younger (fst (observations ! n)) (snd (observations ! n)) source (ages ! j) > max_connections ! j
                      \<and> j \<notin> set (map alert_tier (filter (\<lambda>a. alert_ip a = source) (concat (take n alertss)))) \<longrightarrow>
                     (\<exists>i a. i \<le> j
                        \<and> filter (\<lambda>a. alert_ip a = source) (alertss ! n) = [a]
                        \<and> alert_ip a = source \<and> alert_tier a = i
                        \<and> flows_younger (fst (observations ! n)) (snd (observations ! n)) source (ages ! i) > max_connections ! i
                        \<and> i \<notin> set (map alert_tier (filter (\<lambda>a. alert_ip a = source) (concat (take n alertss))))
                        \<and> (\<forall>k<i. \<not> (flows_younger (fst (observations ! n)) (snd (observations ! n)) source (ages ! k) > max_connections ! k
                                       \<and> k \<notin> set (map alert_tier (filter (\<lambda>a. alert_ip a = source) (concat (take n alertss))))))))
               \<and> ((\<forall>j<3. \<not> (flows_younger (fst (observations ! n)) (snd (observations ! n)) source (ages ! j) > max_connections ! j
                               \<and> j \<notin> set (map alert_tier (filter (\<lambda>a. alert_ip a = source) (concat (take n alertss)))))) \<longrightarrow>
                     filter (\<lambda>a. alert_ip a = source) (alertss ! n) = [])))"
  proof (intro allI impI)
    fix n assume n: "n < length observations"
    have first: "(\<exists>carried updated.
                 analyzer_run (take n observations) = Inr (take n alertss, carried)
               \<and> analyzer_cycle (fst (observations ! n)) (snd (observations ! n)) carried =
                   Inr (alertss ! n, updated)
               \<and> (\<forall>source. get_default carried source [] =
                     map alert_tier
                       (filter (\<lambda>a. alert_ip a = source) (concat (take n alertss)))))"
      unfolding analyzer_run_def by (rule run_cycle [OF assms(1) runl n])
    have second: "\<forall>source.
                 length (filter (\<lambda>a. alert_ip a = source) (alertss ! n)) \<le> 1
               \<and> (\<forall>j. j < 3
                      \<and> flows_younger (fst (observations ! n)) (snd (observations ! n)) source (ages ! j) > max_connections ! j
                      \<and> j \<notin> set (map alert_tier (filter (\<lambda>a. alert_ip a = source) (concat (take n alertss)))) \<longrightarrow>
                     (\<exists>i a. i \<le> j
                        \<and> filter (\<lambda>a. alert_ip a = source) (alertss ! n) = [a]
                        \<and> alert_ip a = source \<and> alert_tier a = i
                        \<and> flows_younger (fst (observations ! n)) (snd (observations ! n)) source (ages ! i) > max_connections ! i
                        \<and> i \<notin> set (map alert_tier (filter (\<lambda>a. alert_ip a = source) (concat (take n alertss))))
                        \<and> (\<forall>k<i. \<not> (flows_younger (fst (observations ! n)) (snd (observations ! n)) source (ages ! k) > max_connections ! k
                                       \<and> k \<notin> set (map alert_tier (filter (\<lambda>a. alert_ip a = source) (concat (take n alertss))))))))
               \<and> ((\<forall>j<3. \<not> (flows_younger (fst (observations ! n)) (snd (observations ! n)) source (ages ! j) > max_connections ! j
                               \<and> j \<notin> set (map alert_tier (filter (\<lambda>a. alert_ip a = source) (concat (take n alertss)))))) \<longrightarrow>
                     filter (\<lambda>a. alert_ip a = source) (alertss ! n) = [])"
    proof
      fix source
      from l2 [THEN conjunct2, THEN conjunct2, THEN conjunct1, rule_format, OF n, of source]
      have eq: "filter (\<lambda>a. alert_ip a = source) (alertss ! n) =
           (case first_new_tier
                   [flows_younger (fst (observations ! n)) (snd (observations ! n)) source 1,
                    flows_younger (fst (observations ! n)) (snd (observations ! n)) source 60,
                    flows_younger (fst (observations ! n)) (snd (observations ! n)) source 300]
                   (map alert_tier
                      (filter (\<lambda>a. alert_ip a = source) (concat (take n alertss)))) of
              None \<Rightarrow> []
            | Some i \<Rightarrow>
                [alert_of source
                   [flows_younger (fst (observations ! n)) (snd (observations ! n)) source 1,
                    flows_younger (fst (observations ! n)) (snd (observations ! n)) source 60,
                    flows_younger (fst (observations ! n)) (snd (observations ! n)) source 300] i])"
        unfolding same get_default_Nil append_Nil .
      show "length (filter (\<lambda>a. alert_ip a = source) (alertss ! n)) \<le> 1
               \<and> (\<forall>j. j < 3
                      \<and> flows_younger (fst (observations ! n)) (snd (observations ! n)) source (ages ! j) > max_connections ! j
                      \<and> j \<notin> set (map alert_tier (filter (\<lambda>a. alert_ip a = source) (concat (take n alertss)))) \<longrightarrow>
                     (\<exists>i a. i \<le> j
                        \<and> filter (\<lambda>a. alert_ip a = source) (alertss ! n) = [a]
                        \<and> alert_ip a = source \<and> alert_tier a = i
                        \<and> flows_younger (fst (observations ! n)) (snd (observations ! n)) source (ages ! i) > max_connections ! i
                        \<and> i \<notin> set (map alert_tier (filter (\<lambda>a. alert_ip a = source) (concat (take n alertss))))
                        \<and> (\<forall>k<i. \<not> (flows_younger (fst (observations ! n)) (snd (observations ! n)) source (ages ! k) > max_connections ! k
                                       \<and> k \<notin> set (map alert_tier (filter (\<lambda>a. alert_ip a = source) (concat (take n alertss))))))))
               \<and> ((\<forall>j<3. \<not> (flows_younger (fst (observations ! n)) (snd (observations ! n)) source (ages ! j) > max_connections ! j
                               \<and> j \<notin> set (map alert_tier (filter (\<lambda>a. alert_ip a = source) (concat (take n alertss)))))) \<longrightarrow>
                     filter (\<lambda>a. alert_ip a = source) (alertss ! n) = [])"
        by (rule tier_choice [OF eq])
    qed
    from first second show "(\<exists>carried updated.
                 analyzer_run (take n observations) = Inr (take n alertss, carried)
               \<and> analyzer_cycle (fst (observations ! n)) (snd (observations ! n)) carried =
                   Inr (alertss ! n, updated)
               \<and> (\<forall>source. get_default carried source [] =
                     map alert_tier
                       (filter (\<lambda>a. alert_ip a = source) (concat (take n alertss)))))
           \<and> (\<forall>source.
                 length (filter (\<lambda>a. alert_ip a = source) (alertss ! n)) \<le> 1
               \<and> (\<forall>j. j < 3
                      \<and> flows_younger (fst (observations ! n)) (snd (observations ! n)) source (ages ! j) > max_connections ! j
                      \<and> j \<notin> set (map alert_tier (filter (\<lambda>a. alert_ip a = source) (concat (take n alertss)))) \<longrightarrow>
                     (\<exists>i a. i \<le> j
                        \<and> filter (\<lambda>a. alert_ip a = source) (alertss ! n) = [a]
                        \<and> alert_ip a = source \<and> alert_tier a = i
                        \<and> flows_younger (fst (observations ! n)) (snd (observations ! n)) source (ages ! i) > max_connections ! i
                        \<and> i \<notin> set (map alert_tier (filter (\<lambda>a. alert_ip a = source) (concat (take n alertss))))
                        \<and> (\<forall>k<i. \<not> (flows_younger (fst (observations ! n)) (snd (observations ! n)) source (ages ! k) > max_connections ! k
                                       \<and> k \<notin> set (map alert_tier (filter (\<lambda>a. alert_ip a = source) (concat (take n alertss))))))))
               \<and> ((\<forall>j<3. \<not> (flows_younger (fst (observations ! n)) (snd (observations ! n)) source (ages ! j) > max_connections ! j
                               \<and> j \<notin> set (map alert_tier (filter (\<lambda>a. alert_ip a = source) (concat (take n alertss)))))) \<longrightarrow>
                     filter (\<lambda>a. alert_ip a = source) (alertss ! n) = []))"
      by (rule conjI)
  qed
  have part1: "(\<exists>alertss blacklist.
           analyzer_run observations = Inr (alertss, blacklist)
         \<and> length alertss = length observations
         \<and> distinct (map (\<lambda>a. (alert_ip a, alert_tier a)) (concat alertss))
         \<and> (\<forall>alerts\<in>set alertss. distinct (map alert_ip alerts))
         \<and> (\<forall>n<length observations.
             (\<exists>carried updated.
                 analyzer_run (take n observations) = Inr (take n alertss, carried)
               \<and> analyzer_cycle (fst (observations ! n)) (snd (observations ! n)) carried =
                   Inr (alertss ! n, updated)
               \<and> (\<forall>source. get_default carried source [] =
                     map alert_tier
                       (filter (\<lambda>a. alert_ip a = source) (concat (take n alertss)))))
           \<and> (\<forall>source.
                 length (filter (\<lambda>a. alert_ip a = source) (alertss ! n)) \<le> 1
               \<and> (\<forall>j. j < 3
                      \<and> flows_younger (fst (observations ! n)) (snd (observations ! n)) source (ages ! j) > max_connections ! j
                      \<and> j \<notin> set (map alert_tier (filter (\<lambda>a. alert_ip a = source) (concat (take n alertss)))) \<longrightarrow>
                     (\<exists>i a. i \<le> j
                        \<and> filter (\<lambda>a. alert_ip a = source) (alertss ! n) = [a]
                        \<and> alert_ip a = source \<and> alert_tier a = i
                        \<and> flows_younger (fst (observations ! n)) (snd (observations ! n)) source (ages ! i) > max_connections ! i
                        \<and> i \<notin> set (map alert_tier (filter (\<lambda>a. alert_ip a = source) (concat (take n alertss))))
                        \<and> (\<forall>k<i. \<not> (flows_younger (fst (observations ! n)) (snd (observations ! n)) source (ages ! k) > max_connections ! k
                                       \<and> k \<notin> set (map alert_tier (filter (\<lambda>a. alert_ip a = source) (concat (take n alertss))))))))
               \<and> ((\<forall>j<3. \<not> (flows_younger (fst (observations ! n)) (snd (observations ! n)) source (ages ! j) > max_connections ! j
                               \<and> j \<notin> set (map alert_tier (filter (\<lambda>a. alert_ip a = source) (concat (take n alertss)))))) \<longrightarrow>
                     filter (\<lambda>a. alert_ip a = source) (alertss ! n) = []))))"
  proof (intro exI conjI)
    show "analyzer_run observations = Inr (alertss, bl)"
      using l [THEN conjunct1] by (simp add: analyzer_run_def)
    show "length alertss = length observations" by (rule l [THEN conjunct2, THEN conjunct1])
    show "distinct (map (\<lambda>a. (alert_ip a, alert_tier a)) (concat alertss))"
      by (rule l [THEN conjunct2, THEN conjunct2, THEN conjunct1])
    show "\<forall>alerts\<in>set alertss. distinct (map alert_ip alerts)"
      by (rule l [THEN conjunct2, THEN conjunct2, THEN conjunct2, THEN conjunct2])
    show "(\<forall>n<length observations.
             (\<exists>carried updated.
                 analyzer_run (take n observations) = Inr (take n alertss, carried)
               \<and> analyzer_cycle (fst (observations ! n)) (snd (observations ! n)) carried =
                   Inr (alertss ! n, updated)
               \<and> (\<forall>source. get_default carried source [] =
                     map alert_tier
                       (filter (\<lambda>a. alert_ip a = source) (concat (take n alertss)))))
           \<and> (\<forall>source.
                 length (filter (\<lambda>a. alert_ip a = source) (alertss ! n)) \<le> 1
               \<and> (\<forall>j. j < 3
                      \<and> flows_younger (fst (observations ! n)) (snd (observations ! n)) source (ages ! j) > max_connections ! j
                      \<and> j \<notin> set (map alert_tier (filter (\<lambda>a. alert_ip a = source) (concat (take n alertss)))) \<longrightarrow>
                     (\<exists>i a. i \<le> j
                        \<and> filter (\<lambda>a. alert_ip a = source) (alertss ! n) = [a]
                        \<and> alert_ip a = source \<and> alert_tier a = i
                        \<and> flows_younger (fst (observations ! n)) (snd (observations ! n)) source (ages ! i) > max_connections ! i
                        \<and> i \<notin> set (map alert_tier (filter (\<lambda>a. alert_ip a = source) (concat (take n alertss))))
                        \<and> (\<forall>k<i. \<not> (flows_younger (fst (observations ! n)) (snd (observations ! n)) source (ages ! k) > max_connections ! k
                                       \<and> k \<notin> set (map alert_tier (filter (\<lambda>a. alert_ip a = source) (concat (take n alertss))))))))
               \<and> ((\<forall>j<3. \<not> (flows_younger (fst (observations ! n)) (snd (observations ! n)) source (ages ! j) > max_connections ! j
                               \<and> j \<notin> set (map alert_tier (filter (\<lambda>a. alert_ip a = source) (concat (take n alertss)))))) \<longrightarrow>
                     filter (\<lambda>a. alert_ip a = source) (alertss ! n) = [])))"
      by (rule every)
  qed
  from cycle_spec [OF assms(2), of current_time blacklist] obtain alerts bl' where
    c: "analyzer_cycle current_time first_contacts blacklist = Inr (alerts, bl')
     \<and> (\<forall>S. filter (\<lambda>a. alert_ip a = S) alerts =
           (case first_new_tier (?wc S) (?L S) of
              None \<Rightarrow> []
            | Some i \<Rightarrow> [alert_of S (?wc S) i]))
     \<and> (\<forall>S. get_default bl' S [] =
           ?L S @
           (case first_new_tier (?wc S) (?L S) of
              None \<Rightarrow> []
            | Some i \<Rightarrow> [i]))"
    by (elim exE) (rule that)
  note run = c [THEN conjunct1] and per = c [THEN conjunct2, THEN conjunct1]
    and lst = c [THEN conjunct2, THEN conjunct2, rule_format]
  have one: "\<forall>source. length (filter (\<lambda>a. alert_ip a = source) alerts) \<le> 1"
    using at_most_one_per_source [of alerts ?wc ?L, OF per] by blast
  have listed: "\<forall>source i. i \<in> set (?L source) \<longrightarrow>
               i \<in> set (get_default bl' source [])
             \<and> \<not> (\<exists>a\<in>set alerts. alert_ip a = source \<and> alert_tier a = i)"
  proof (intro allI impI conjI notI)
    fix source i assume i: "i \<in> set (?L source)"
    from lst [of source] i show "i \<in> set (get_default bl' source [])" by simp
    assume "\<exists>a\<in>set alerts. alert_ip a = source \<and> alert_tier a = i"
    then obtain a where a: "a \<in> set alerts" and s: "alert_ip a = source" and t: "alert_tier a = i"
      by blast
    from alert_in_cycle [of alerts ?wc ?L, OF per a]
    obtain n where n: "first_new_tier (?wc (alert_ip a)) (?L (alert_ip a)) = Some n"
      and an: "a = alert_of (alert_ip a) (?wc (alert_ip a)) n" by blast
    have "alert_tier a = n" by (subst an) (simp add: alert_of_def)
    with first_new_tier_Some [OF n] s t i show False by simp
  qed
  have some: "\<forall>source j. j < 3 \<and> ?ex source j \<longrightarrow>
               (\<exists>i a. i \<le> j
                 \<and> filter (\<lambda>a. alert_ip a = source) alerts = [a]
                 \<and> alert_ip a = source \<and> alert_tier a = i
                 \<and> flows_younger current_time first_contacts source (ages ! i) > max_connections ! i
                 \<and> i \<notin> set (?L source)
                 \<and> (\<forall>k<i. \<not> ?ex source k)
                 \<and> get_default bl' source [] = ?L source @ [i])"
  proof (intro allI impI)
    fix source j assume j: "j < 3 \<and> ?ex source j"
    then have j3: "j < 3" and exj: "?ex source j" by simp_all
    from exj ex [OF j3, of source]
    have wj: "?wc source ! j > max_connections ! j \<and> j \<notin> set (?L source)" by simp
    have "first_new_tier (?wc source) (?L source) \<noteq> None"
    proof
      assume "first_new_tier (?wc source) (?L source) = None"
      from first_new_tier_None [OF this] j3 wj show False by blast
    qed
    then obtain i where i: "first_new_tier (?wc source) (?L source) = Some i" by auto
    from first_new_tier_Some [OF i] have i3: "i < 3"
      and wi: "?wc source ! i > max_connections ! i \<and> i \<notin> set (?L source)"
      and least: "\<forall>k<i. \<not> (?wc source ! k > max_connections ! k \<and> k \<notin> set (?L source))"
      by simp_all
    have ij: "i \<le> j"
    proof (rule ccontr)
      assume "\<not> i \<le> j"
      then have "j < i" by simp
      with least wj show False by blast
    qed
    from wi ex [OF i3, of source] have exi: "?ex source i" by simp
    have lk: "\<forall>k<i. \<not> ?ex source k"
    proof (intro allI impI)
      fix k assume k: "k < i"
      with i3 have k3: "k < 3" by simp
      from least k have "\<not> (?wc source ! k > max_connections ! k \<and> k \<notin> set (?L source))"
        by blast
      with ex [OF k3, of source] show "\<not> ?ex source k" by simp
    qed
    from per [rule_format, of source] i
    have f: "filter (\<lambda>a. alert_ip a = source) alerts = [alert_of source (?wc source) i]"
      by simp
    have ip: "alert_ip (alert_of source (?wc source) i) = source"
      and ti: "alert_tier (alert_of source (?wc source) i) = i"
      by (simp_all add: alert_of_def)
    from lst [of source] i have b: "get_default bl' source [] = ?L source @ [i]" by simp
    from ij f ip ti exi lk b
    show "\<exists>i a. i \<le> j
                 \<and> filter (\<lambda>a. alert_ip a = source) alerts = [a]
                 \<and> alert_ip a = source \<and> alert_tier a = i
                 \<and> flows_younger current_time first_contacts source (ages ! i) > max_connections ! i
                 \<and> i \<notin> set (?L source)
                 \<and> (\<forall>k<i. \<not> ?ex source k)
                 \<and> get_default bl' source [] = ?L source @ [i]"
      by (intro exI [of _ i] exI [of _ "alert_of source (?wc source) i"]) simp
  qed
  have none: "\<forall>source. (\<forall>j<3. \<not> ?ex source j) \<longrightarrow>
               filter (\<lambda>a. alert_ip a = source) alerts = []
             \<and> get_default bl' source [] = ?L source"
  proof (intro allI impI)
    fix source assume n: "\<forall>j<3. \<not> ?ex source j"
    have "first_new_tier (?wc source) (?L source) = None"
    proof (cases "first_new_tier (?wc source) (?L source)")
      case None
      then show ?thesis .
    next
      case (Some i)
      from first_new_tier_Some [OF Some] have i3: "i < 3"
        and wi: "?wc source ! i > max_connections ! i \<and> i \<notin> set (?L source)" by simp_all
      from wi ex [OF i3, of source] have "?ex source i" by simp
      with n i3 show ?thesis by blast
    qed
    with per [rule_format, of source] lst [of source]
    show "filter (\<lambda>a. alert_ip a = source) alerts = []
             \<and> get_default bl' source [] = ?L source"
      by simp
  qed
  have part2: "(\<exists>alerts blacklist'.
           analyzer_cycle current_time first_contacts blacklist = Inr (alerts, blacklist')
         \<and> (\<forall>source. length (filter (\<lambda>a. alert_ip a = source) alerts) \<le> 1)
         \<and> (\<forall>source i. i \<in> set (get_default blacklist source []) \<longrightarrow>
               i \<in> set (get_default blacklist' source [])
             \<and> \<not> (\<exists>a\<in>set alerts. alert_ip a = source \<and> alert_tier a = i))
         \<and> (\<forall>source j. j < 3
               \<and> flows_younger current_time first_contacts source (ages ! j) > max_connections ! j
               \<and> j \<notin> set (get_default blacklist source []) \<longrightarrow>
               (\<exists>i a. i \<le> j
                 \<and> filter (\<lambda>a. alert_ip a = source) alerts = [a]
                 \<and> alert_ip a = source \<and> alert_tier a = i
                 \<and> flows_younger current_time first_contacts source (ages ! i) > max_connections ! i
                 \<and> i \<notin> set (get_default blacklist source [])
                 \<and> (\<forall>k<i. \<not> (flows_younger current_time first_contacts source (ages ! k)
                                  > max_connections ! k
                                \<and> k \<notin> set (get_default blacklist source [])))
                 \<and> get_default blacklist' source [] = get_default blacklist source [] @ [i]))
         \<and> (\<forall>source. (\<forall>j<3. \<not> (flows_younger current_time first_contacts source (ages ! j)
                                     > max_connections ! j
                                   \<and> j \<notin> set (get_default blacklist source []))) \<longrightarrow>
               filter (\<lambda>a. alert_ip a = source) alerts = []
             \<and> get_default blacklist' source [] = get_default blacklist source []))"
  proof (intro exI conjI)
    show "analyzer_cycle current_time first_contacts blacklist = Inr (alerts, bl')" by (rule run)
  qed (rule one, rule listed, rule some, rule none)
  from part1 part2 show ?thesis by (rule conjI)
qed

theorem alerts_deduplicated_witness:
  "distinct (map fst ((map (\<lambda>p. ((''10.0.0.5'', ''10.0.0.9'', p), 99.5)) [1..<7]) :: table))
   \<and> distinct (map fst ((map (\<lambda>p. ((''10.0.0.5'', ''10.0.0.9'', p), 100)) [1..<102]) :: table))
   \<and> (\<exists>alertss blacklist.
        analyzer_run [(100, (map (\<lambda>p. ((''10.0.0.5'', ''10.0.0.9'', p), 99.5)) [1..<7])), (100.25, (map (\<lambda>p. ((''10.0.0.5'', ''10.0.0.9'', p), 99.5)) [1..<7])), (130, (map (\<lambda>p. ((''10.0.0.5'', ''10.0.0.9'', p), 100)) [1..<102]))] = Inr (alertss, blacklist)
      \<and> map alert_tier (filter (\<lambda>a. alert_ip a = ''10.0.0.5'') (alertss ! 0)) = [0]
      \<and> filter (\<lambda>a. alert_ip a = ''10.0.0.5'') (alertss ! 1) = []
      \<and> map alert_tier (filter (\<lambda>a. alert_ip a = ''10.0.0.5'') (alertss ! 2)) = [1])"
proof -
  let ?t6 = "(map (\<lambda>p. ((''10.0.0.5'', ''10.0.0.9'', p), 99.5)) [1..<7]) :: table"
  let ?t101 = "(map (\<lambda>p. ((''10.0.0.5'', ''10.0.0.9'', p), 100)) [1..<102]) :: table"
  let ?obs = "[(100, ?t6), (100.25, ?t6), (130, ?t101)] :: (real \<times> table) list"
  let ?ip = "''10.0.0.5''"
  have d6: "distinct (map fst ?t6)" by (rule burst_distinct) simp
  have d101: "distinct (map fst ?t101)" by (rule burst_distinct) simp
  have h1: "\<forall>obs\<in>set ?obs. distinct (map fst (snd obs))" using d6 d101 by simp
  note part = alerts_deduplicated [OF h1 d6, THEN conjunct1]
  from part obtain alertss bl where
    f: "
           analyzer_run ?obs = Inr (alertss, bl)
         \<and> length alertss = length ?obs
         \<and> distinct (map (\<lambda>a. (alert_ip a, alert_tier a)) (concat alertss))
         \<and> (\<forall>alerts\<in>set alertss. distinct (map alert_ip alerts))
         \<and> (\<forall>n<length ?obs.
             (\<exists>carried updated.
                 analyzer_run (take n ?obs) = Inr (take n alertss, carried)
               \<and> analyzer_cycle (fst (?obs ! n)) (snd (?obs ! n)) carried =
                   Inr (alertss ! n, updated)
               \<and> (\<forall>source. get_default carried source [] =
                     map alert_tier
                       (filter (\<lambda>a. alert_ip a = source) (concat (take n alertss)))))
           \<and> (\<forall>source.
                 length (filter (\<lambda>a. alert_ip a = source) (alertss ! n)) \<le> 1
               \<and> (\<forall>j. j < 3
                      \<and> flows_younger (fst (?obs ! n)) (snd (?obs ! n)) source (ages ! j) > max_connections ! j
                      \<and> j \<notin> set (map alert_tier (filter (\<lambda>a. alert_ip a = source) (concat (take n alertss)))) \<longrightarrow>
                     (\<exists>i a. i \<le> j
                        \<and> filter (\<lambda>a. alert_ip a = source) (alertss ! n) = [a]
                        \<and> alert_ip a = source \<and> alert_tier a = i
                        \<and> flows_younger (fst (?obs ! n)) (snd (?obs ! n)) source (ages ! i) > max_connections ! i
                        \<and> i \<notin> set (map alert_tier (filter (\<lambda>a. alert_ip a = source) (concat (take n alertss))))
                        \<and> (\<forall>k<i. \<not> (flows_younger (fst (?obs ! n)) (snd (?obs ! n)) source (ages ! k) > max_connections ! k
                                       \<and> k \<notin> set (map alert_tier (filter (\<lambda>a. alert_ip a = source) (concat (take n alertss))))))))
               \<and> ((\<forall>j<3. \<not> (flows_younger (fst (?obs ! n)) (snd (?obs ! n)) source (ages ! j) > max_connections ! j
                               \<and> j \<notin> set (map alert_tier (filter (\<lambda>a. alert_ip a = source) (concat (take n alertss)))))) \<longrightarrow>
                     filter (\<lambda>a. alert_ip a = source) (alertss ! n) = [])))"
    by (elim exE) (rule that)
  note run = f [THEN conjunct1] and len = f [THEN conjunct2, THEN conjunct1]
    and ev = f [THEN conjunct2, THEN conjunct2, THEN conjunct2, THEN conjunct2, rule_format]
  from len obtain x0 x1 x2 where xs: "alertss = [x0, x1, x2]"
    by (auto simp: numeral_eq_Suc length_Suc_conv)
  have n0: "(0::nat) < length ?obs" and n1: "(1::nat) < length ?obs"
    and n2: "(2::nat) < length ?obs" by simp_all
  note c0 = ev [OF n0, THEN conjunct2, rule_format, of ?ip]
  note c1 = ev [OF n1, THEN conjunct2, rule_format, of ?ip]
  note c2 = ev [OF n2, THEN conjunct2, rule_format, of ?ip]
  have o0: "?obs ! 0 = (100, ?t6)" and o1: "?obs ! 1 = (100.25, ?t6)"
    and o2: "?obs ! 2 = (130, ?t101)" by simp_all
  have a0: "alertss ! 0 = x0" and a1: "alertss ! 1 = x1" and a2: "alertss ! 2 = x2"
    using xs by simp_all
  have k0: "concat (take 0 alertss) = []" and k1: "concat (take 1 alertss) = x0"
    and k2: "concat (take 2 alertss) = x0 @ x1" using xs by simp_all
  have p0: "(0::nat) < 3
      \<and> flows_younger (fst (?obs ! 0)) (snd (?obs ! 0)) ?ip (ages ! 0) > max_connections ! 0
      \<and> 0 \<notin> set (map alert_tier (filter (\<lambda>a. alert_ip a = ?ip) (concat (take 0 alertss))))"
    unfolding o0 k0 by (simp add: burst_count ages_def max_connections_def)
  from c0 [THEN conjunct2, THEN conjunct1, rule_format, OF p0]
  obtain i a where "i \<le> (0::nat)" and "filter (\<lambda>a. alert_ip a = ?ip) (alertss ! 0) = [a]"
    and "alert_tier a = i" by blast
  then have r0: "map alert_tier (filter (\<lambda>a. alert_ip a = ?ip) (alertss ! 0)) = [0]" by simp
  then have e0: "map alert_tier (filter (\<lambda>a. alert_ip a = ?ip) x0) = [0]" unfolding a0 .
  have p1: "\<forall>j<3. \<not> (flows_younger (fst (?obs ! 1)) (snd (?obs ! 1)) ?ip (ages ! j)
                      > max_connections ! j
                    \<and> j \<notin> set (map alert_tier
                          (filter (\<lambda>a. alert_ip a = ?ip) (concat (take 1 alertss)))))"
  proof (intro allI impI)
    fix j :: nat assume "j < 3"
    then have "j = 0 \<or> j = 1 \<or> j = 2" by arith
    then show "\<not> (flows_younger (fst (?obs ! 1)) (snd (?obs ! 1)) ?ip (ages ! j)
                      > max_connections ! j
                    \<and> j \<notin> set (map alert_tier
                          (filter (\<lambda>a. alert_ip a = ?ip) (concat (take 1 alertss)))))"
      unfolding o1 k1 e0
      by (elim disjE) (simp_all add: burst_count ages_def max_connections_def)
  qed
  from c1 [THEN conjunct2, THEN conjunct2, THEN mp, OF p1]
  have r1: "filter (\<lambda>a. alert_ip a = ?ip) (alertss ! 1) = []" .
  then have e1: "filter (\<lambda>a. alert_ip a = ?ip) x1 = []" unfolding a1 .
  have earlier2: "map alert_tier (filter (\<lambda>a. alert_ip a = ?ip) (concat (take 2 alertss))) = [0]"
    unfolding k2 using e0 e1 by simp
  have p2: "(1::nat) < 3
      \<and> flows_younger (fst (?obs ! 2)) (snd (?obs ! 2)) ?ip (ages ! 1) > max_connections ! 1
      \<and> 1 \<notin> set (map alert_tier (filter (\<lambda>a. alert_ip a = ?ip) (concat (take 2 alertss))))"
    unfolding o2 earlier2 by (simp add: burst_count ages_def max_connections_def)
  from c2 [THEN conjunct2, THEN conjunct1, rule_format, OF p2]
  obtain i' a' where i1: "i' \<le> (1::nat)"
    and fa: "filter (\<lambda>a. alert_ip a = ?ip) (alertss ! 2) = [a']"
    and ta: "alert_tier a' = i'"
    and ni: "i' \<notin> set (map alert_tier (filter (\<lambda>a. alert_ip a = ?ip) (concat (take 2 alertss))))"
    by blast
  from ni have "i' \<noteq> 0" unfolding earlier2 by simp
  with i1 have "i' = 1" by simp
  with fa ta have r2: "map alert_tier (filter (\<lambda>a. alert_ip a = ?ip) (alertss ! 2)) = [1]"
    by simp
  from run r0 r1 r2 have "\<exists>alertss blacklist.
        analyzer_run ?obs = Inr (alertss, blacklist)
      \<and> map alert_tier (filter (\<lambda>a. alert_ip a = ?ip) (alertss ! 0)) = [0]
      \<and> filter (\<lambda>a. alert_ip a = ?ip) (alertss ! 1) = []
      \<and> map alert_tier (filter (\<lambda>a. alert_ip a = ?ip) (alertss ! 2)) = [1]"
    by (intro exI [of _ alertss] exI [of _ bl] conjI)
  with d6 d101 show ?thesis by (intro conjI)
qed

end
